theory Spec2Isabelle
  imports Main "HOL-Library.Word"
begin

unbundle bit_operations_syntax

chapter \<open>MTOS kernel core: allocators, schedulers, IPC transports and the registry\<close>

text \<open>
  The kernel targets 32-bit x86: \<open>uint32_t\<close>, \<open>size_t\<close> and \<open>uintptr_t\<close> are all
  \<open>unsigned int\<close> (include/types.h), so they are 32-bit words here and every
  \<open>+\<close>, \<open>-\<close>, \<open>*\<close> on them wraps.
\<close>

type_synonym u32 = "32 word"
type_synonym u8 = "8 word"

section \<open>Priority scheduler (kernel/scheduler/priority\_scheduler.c)\<close>

text \<open>
  A process descriptor is owned by the host and reached through a pointer; the
  scheduler keeps the descriptors it was given in \<open>procs\<close>, indexed by address.
  The \<open>next\<close>/\<open>prev\<close> links that thread a descriptor into a ready queue are
  represented by the queue itself: a ready queue is the sequence of descriptor
  addresses from \<open>head\<close> to \<open>tail\<close>, and its \<open>count\<close> field is the length of
  that sequence.
\<close>

record process =
  pid :: u32
  priority :: u32
  original_priority :: u32
  age :: u32
  time_slice :: u32
  remaining_slice :: u32
  is_running :: bool
  is_blocked :: bool

record priority_state =
  procs :: "nat \<Rightarrow> process"
  ready_queues :: "nat \<Rightarrow> nat list"
  current_process :: "nat option"
  blocked_processes :: "nat list"
  total_processes :: u32
  context_switches :: u32
  total_wait_time :: u32
  current_tick :: u32
  initialized :: bool

definition MAX_PRIORITY :: nat where "MAX_PRIORITY = 31"
definition MIN_PRIORITY :: nat where "MIN_PRIORITY = 0"
definition DEFAULT_PRIORITY :: nat where "DEFAULT_PRIORITY = 15"
definition AGING_INTERVAL :: nat where "AGING_INTERVAL = 100"
definition AGING_BOOST :: nat where "AGING_BOOST = 1"

text \<open>
  \<open>enqueue_process\<close> writes the descriptor's own links (\<open>proc->next = NULL\<close>,
  \<open>proc->prev = queue->tail\<close>) and makes it the tail. For a descriptor that is not linked
  into any list at the time of the call this appends it to the sequence, which is what
  the definition below states. For a descriptor that is still linked the C code would
  overwrite links that some list depends on (enqueueing the only member of a queue
  again gives \<open>proc->next = proc\<close>, for instance); that case has no counterpart in the
  sequence representation, so every statement about the queue contents after an enqueue
  is made for a descriptor that is not linked, which \<open>not_linked\<close> expresses. In
  \<open>age_processes\<close> and \<open>schedule\<close> the calls satisfy it by construction:
  \<open>age_processes\<close> unlinks the descriptor with \<open>remove_process_from_queue\<close> first, and
  \<open>schedule\<close> enqueues the current process, which \<open>dequeue_process\<close> unlinked when it
  was dispatched. In \<open>add_process\<close> it depends on the descriptor the host passes in.
\<close>

definition not_linked :: "nat \<Rightarrow> priority_state \<Rightarrow> bool" where
  "not_linked p s \<longleftrightarrow>
     (\<forall>q \<in> set [MIN_PRIORITY..<Suc MAX_PRIORITY]. p \<notin> set (ready_queues s q)) \<and>
     p \<notin> set (blocked_processes s)"

definition enqueue_process :: "nat \<Rightarrow> nat \<Rightarrow> priority_state \<Rightarrow> priority_state" where
  "enqueue_process q p s = s\<lparr>ready_queues := (ready_queues s)(q := ready_queues s q @ [p])\<rparr>"


definition remove_process_from_queue :: "nat \<Rightarrow> nat \<Rightarrow> priority_state \<Rightarrow> priority_state" where
  "remove_process_from_queue q p s =
     s\<lparr>ready_queues := (ready_queues s)(q := remove1 p (ready_queues s q))\<rparr>"



text \<open>One iteration of the inner \<open>while (proc)\<close> loop of \<open>age_processes\<close>, for the
  descriptor \<open>p\<close> met while walking queue \<open>prio\<close>.\<close>

definition age_one :: "nat \<Rightarrow> nat \<Rightarrow> priority_state \<Rightarrow> priority_state" where
  "age_one prio p s =
     (let pr = (procs s p)\<lparr>age := age (procs s p) + 1\<rparr>;
          s1 = s\<lparr>procs := (procs s)(p := pr)\<rparr>
      in if unat (age pr) \<ge> AGING_INTERVAL \<and> prio < MAX_PRIORITY then
           let s2 = remove_process_from_queue prio p s1;
               np = (if prio + AGING_BOOST > MAX_PRIORITY then MAX_PRIORITY
                     else prio + AGING_BOOST);
               pr2 = pr\<lparr>priority := of_nat np, age := 0\<rparr>;
               s3 = s2\<lparr>procs := (procs s2)(p := pr2)\<rparr>
           in enqueue_process np p s3
         else s1)"

text \<open>The walk of one queue follows the \<open>next\<close> pointer saved before the descriptor is
  moved, so it visits the members the queue had when the walk began, in order.\<close>

definition age_queue :: "nat \<Rightarrow> priority_state \<Rightarrow> priority_state" where
  "age_queue prio s = fold (age_one prio) (ready_queues s prio) s"

definition age_processes :: "priority_state \<Rightarrow> priority_state" where
  "age_processes s = fold age_queue [MIN_PRIORITY..<MAX_PRIORITY] s"

definition calculate_time_slice :: "u32 \<Rightarrow> u32" where
  "calculate_time_slice prio = 10 + prio * 2"

text \<open>\<open>priority_add_process\<close>; the argument is the descriptor's address, \<open>None\<close> for a
  null pointer.\<close>

definition priority_add_process :: "nat option \<Rightarrow> priority_state \<Rightarrow> priority_state" where
  "priority_add_process po s =
     (case po of
        None \<Rightarrow> s
      | Some p \<Rightarrow>
          let d0 = procs s p;
              d1 = (if unat (priority d0) > MAX_PRIORITY
                    then d0\<lparr>priority := of_nat DEFAULT_PRIORITY\<rparr> else d0);
              d2 = d1\<lparr>original_priority := priority d1\<rparr>;
              d3 = d2\<lparr>age := 0\<rparr>;
              d4 = d3\<lparr>time_slice := calculate_time_slice (priority d3)\<rparr>;
              d5 = d4\<lparr>remaining_slice := time_slice d4\<rparr>;
              d6 = d5\<lparr>is_running := False, is_blocked := False\<rparr>;
              s1 = s\<lparr>procs := (procs s)(p := d6)\<rparr>;
              s2 = enqueue_process (unat (priority d6)) p s1
          in s2\<lparr>total_processes := total_processes s2 + 1\<rparr>)"



text \<open>The closing loop of \<open>priority_timer_tick\<close> adds every queue's \<open>count\<close> to
  \<open>total_wait_time\<close>.\<close>

definition add_wait_times :: "priority_state \<Rightarrow> priority_state" where
  "add_wait_times s =
     fold (\<lambda>q t. t\<lparr>total_wait_time := total_wait_time t + of_nat (length (ready_queues t q))\<rparr>)
          [MIN_PRIORITY..<Suc MAX_PRIORITY] s"




text \<open>Descriptor \<open>p\<close> sits in exactly one ready queue, queue \<open>k\<close>, and once (its link
  fields can thread it into one list only).\<close>

definition sits_in :: "nat \<Rightarrow> nat \<Rightarrow> priority_state \<Rightarrow> bool" where
  "sits_in p k s \<longleftrightarrow>
     count_list (ready_queues s k) p = 1 \<and> (\<forall>j. j \<noteq> k \<longrightarrow> p \<notin> set (ready_queues s j))"




definition idle_descriptor :: process where
  "idle_descriptor = \<lparr>pid = 0, priority = 0, original_priority = 0, age = 0, time_slice = 0,
     remaining_slice = 0, is_running = False, is_blocked = False\<rparr>"

text \<open>\<open>priority_init\<close> on a scheduler that is not yet initialised.\<close>

definition priority_init :: "priority_state \<Rightarrow> priority_state" where
  "priority_init s =
     (if initialized s then s
      else s\<lparr>ready_queues := (\<lambda>_. []), current_process := None, blocked_processes := [],
             total_processes := 0, context_switches := 0, total_wait_time := 0,
             current_tick := 0, initialized := True\<rparr>)"

text \<open>A scenario state: a fresh scheduler to which one descriptor (address 1, priority 30)
  has been added; nothing is running.\<close>

definition blank_priority_state :: priority_state where
  "blank_priority_state = \<lparr>procs = (\<lambda>_. idle_descriptor\<lparr>pid := 1, priority := 30\<rparr>),
     ready_queues = (\<lambda>_. []), current_process = None, blocked_processes = [],
     total_processes = 0, context_switches = 0, total_wait_time = 0, current_tick = 0,
     initialized = False\<rparr>"


section \<open>Round-robin scheduler (kernel/scheduler/round\_robin\_scheduler.c)\<close>

text \<open>
  Queue nodes come from the static array \<open>node_pool[64]\<close> of \<open>create_process_node\<close>;
  a node pointer is the node's index in that array, a process pointer is the
  descriptor's address, and \<open>None\<close> is the null pointer. The pool and its \<open>node_index\<close>
  are function-static: no operation of the scheduler resets them.

  The queue walks follow \<open>next\<close> until they meet a null pointer. A chain of pool nodes
  that ends in null visits each of the 64 nodes at most once, so a walk that has
  visited 64 nodes and still holds a non-null pointer is inside a cycle and never
  returns; such a walk has the value \<open>None\<close>.
\<close>

record rr_process_node =
  n_process :: "nat option"
  n_next :: "nat option"
  n_prev :: "nat option"
  n_wait_time :: u32

record rr_state =
  node_pool :: "nat \<Rightarrow> rr_process_node"
  node_index :: nat
  ready_queue_head :: "nat option"
  ready_queue_tail :: "nat option"
  rr_blocked_processes :: "nat option"
  rr_current_process :: "nat option"
  time_quantum :: u32
  remaining_quantum :: u32
  process_count :: u32
  rr_context_switches :: u32
  rr_total_wait_time :: u32
  rr_current_tick :: u32
  rr_initialized :: bool

definition DEFAULT_TIME_QUANTUM :: u32 where "DEFAULT_TIME_QUANTUM = 20"
definition NODE_POOL_SIZE :: nat where "NODE_POOL_SIZE = 64"

definition create_process_node :: "nat option \<Rightarrow> rr_state \<Rightarrow> nat option \<times> rr_state" where
  "create_process_node proc s =
     (if node_index s \<ge> NODE_POOL_SIZE then (None, s)
      else let node = node_index s;
               s1 = s\<lparr>node_index := node_index s + 1\<rparr>;
               s2 = s1\<lparr>node_pool := (node_pool s1)(node :=
                       \<lparr>n_process = proc, n_next = None, n_prev = None, n_wait_time = 0\<rparr>)\<rparr>
           in (Some node, s2))"

definition add_to_ready_queue :: "nat option \<Rightarrow> rr_state \<Rightarrow> rr_state" where
  "add_to_ready_queue nodep s =
     (case nodep of
        None \<Rightarrow> s
      | Some node \<Rightarrow>
          let s1 = s\<lparr>node_pool := (node_pool s)(node := (node_pool s node)
                        \<lparr>n_next := None, n_prev := ready_queue_tail s\<rparr>)\<rparr>;
              s2 = (case ready_queue_tail s1 of
                      Some t \<Rightarrow> s1\<lparr>node_pool := (node_pool s1)(t := (node_pool s1 t)
                                       \<lparr>n_next := Some node\<rparr>)\<rparr>
                    | None \<Rightarrow> s1\<lparr>ready_queue_head := Some node\<rparr>)
          in s2\<lparr>ready_queue_tail := Some node\<rparr>)"

definition remove_from_ready_queue :: "rr_state \<Rightarrow> nat option \<times> rr_state" where
  "remove_from_ready_queue s =
     (case ready_queue_head s of
        None \<Rightarrow> (None, s)
      | Some node \<Rightarrow>
          let s1 = s\<lparr>ready_queue_head := n_next (node_pool s node)\<rparr>;
              s2 = (case ready_queue_head s1 of
                      Some h \<Rightarrow> s1\<lparr>node_pool := (node_pool s1)(h := (node_pool s1 h)
                                       \<lparr>n_prev := None\<rparr>)\<rparr>
                    | None \<Rightarrow> s1\<lparr>ready_queue_tail := None\<rparr>);
              s3 = s2\<lparr>node_pool := (node_pool s2)(node := (node_pool s2 node)
                        \<lparr>n_next := None, n_prev := None\<rparr>)\<rparr>
          in (Some node, s3))"

definition remove_node_from_queue :: "nat option \<Rightarrow> rr_state \<Rightarrow> rr_state" where
  "remove_node_from_queue nodep s =
     (case nodep of
        None \<Rightarrow> s
      | Some node \<Rightarrow>
          let s1 = (case n_prev (node_pool s node) of
                      Some p \<Rightarrow> s\<lparr>node_pool := (node_pool s)(p := (node_pool s p)
                                      \<lparr>n_next := n_next (node_pool s node)\<rparr>)\<rparr>
                    | None \<Rightarrow> s\<lparr>ready_queue_head := n_next (node_pool s node)\<rparr>);
              s2 = (case n_next (node_pool s1 node) of
                      Some n \<Rightarrow> s1\<lparr>node_pool := (node_pool s1)(n := (node_pool s1 n)
                                       \<lparr>n_prev := n_prev (node_pool s1 node)\<rparr>)\<rparr>
                    | None \<Rightarrow> s1\<lparr>ready_queue_tail := n_prev (node_pool s1 node)\<rparr>)
          in s2\<lparr>node_pool := (node_pool s2)(node := (node_pool s2 node)
                   \<lparr>n_next := None, n_prev := None\<rparr>)\<rparr>)"

text \<open>A walk \<open>while (current) { if (current->process == proc) return current; current =
  current->next; }\<close>: \<open>Some (Some n)\<close> when node \<open>n\<close> is found, \<open>Some None\<close> when the chain
  ends without a match, \<open>None\<close> when the walk never ends.\<close>

fun find_in_chain ::
  "nat \<Rightarrow> (nat \<Rightarrow> rr_process_node) \<Rightarrow> nat option \<Rightarrow> nat option \<Rightarrow> nat option option" where
  "find_in_chain fuel pool None proc = Some None"
| "find_in_chain 0 pool (Some c) proc = None"
| "find_in_chain (Suc fuel) pool (Some c) proc =
     (if n_process (pool c) = proc then Some (Some c)
      else find_in_chain fuel pool (n_next (pool c)) proc)"

definition find_process_node :: "nat option \<Rightarrow> rr_state \<Rightarrow> nat option option" where
  "find_process_node proc s =
     (case find_in_chain NODE_POOL_SIZE (node_pool s) (ready_queue_head s) proc of
        None \<Rightarrow> None
      | Some (Some n) \<Rightarrow> Some (Some n)
      | Some None \<Rightarrow>
          find_in_chain NODE_POOL_SIZE (node_pool s) (rr_blocked_processes s) proc)"

definition rr_init :: "rr_state \<Rightarrow> int \<times> rr_state" where
  "rr_init s =
     (if rr_initialized s then (0, s)
      else (0, s\<lparr>ready_queue_head := None, ready_queue_tail := None,
                 rr_blocked_processes := None, rr_current_process := None,
                 time_quantum := DEFAULT_TIME_QUANTUM, remaining_quantum := 0,
                 process_count := 0, rr_context_switches := 0, rr_total_wait_time := 0,
                 rr_current_tick := 0, rr_initialized := True\<rparr>))"

definition rr_add_process :: "nat option \<Rightarrow> rr_state \<Rightarrow> rr_state" where
  "rr_add_process proc s =
     (case proc of
        None \<Rightarrow> s
      | Some p \<Rightarrow>
          (case create_process_node proc s of
             (None, s1) \<Rightarrow> s1
           | (Some node, s1) \<Rightarrow>
               let s2 = add_to_ready_queue (Some node) s1
               in s2\<lparr>process_count := process_count s2 + 1\<rparr>))"

definition rr_remove_process :: "nat option \<Rightarrow> rr_state \<Rightarrow> rr_state option" where
  "rr_remove_process proc s =
     (case proc of
        None \<Rightarrow> Some s
      | Some p \<Rightarrow>
          (case find_process_node proc s of
             None \<Rightarrow> None
           | Some None \<Rightarrow> Some s
           | Some (Some node) \<Rightarrow>
               let s1 = (if n_process (node_pool s node) = rr_current_process s
                         then s\<lparr>rr_current_process := None, remaining_quantum := 0\<rparr>
                         else remove_node_from_queue (Some node) s)
               in Some (s1\<lparr>process_count := process_count s1 - 1\<rparr>)))"

definition rr_get_next :: "rr_state \<Rightarrow> nat option \<times> rr_state" where
  "rr_get_next s =
     (case remove_from_ready_queue s of
        (None, s1) \<Rightarrow> (None, s1)
      | (Some node, s1) \<Rightarrow> (n_process (node_pool s1 node), s1))"

definition rr_schedule :: "rr_state \<Rightarrow> rr_state" where
  "rr_schedule s =
     (if rr_current_process s = None \<or> remaining_quantum s = 0 then
        let s1 = (if rr_current_process s \<noteq> None \<and> remaining_quantum s = 0
                  then (case create_process_node (rr_current_process s) s of
                          (None, t) \<Rightarrow> t
                        | (Some node, t) \<Rightarrow> add_to_ready_queue (Some node) t)
                  else s);
            (next_process, s2) = rr_get_next s1
        in if next_process \<noteq> rr_current_process s2
           then s2\<lparr>rr_current_process := next_process,
                   remaining_quantum := time_quantum s2,
                   rr_context_switches := rr_context_switches s2 + 1\<rparr>
           else s2
      else s)"

definition rr_yield :: "rr_state \<Rightarrow> rr_state" where
  "rr_yield s =
     (let s1 = (if rr_current_process s \<noteq> None
                then let s2 = (case create_process_node (rr_current_process s) s of
                                 (None, t) \<Rightarrow> t
                               | (Some node, t) \<Rightarrow> add_to_ready_queue (Some node) t)
                     in s2\<lparr>rr_current_process := None, remaining_quantum := 0\<rparr>
                else s)
      in rr_schedule s1)"

definition rr_block :: "nat option \<Rightarrow> rr_state \<Rightarrow> rr_state option" where
  "rr_block proc s =
     (case proc of
        None \<Rightarrow> Some s
      | Some p \<Rightarrow>
          if proc = rr_current_process s
          then Some (rr_schedule (s\<lparr>rr_current_process := None, remaining_quantum := 0\<rparr>))
          else (case find_process_node proc s of
                  None \<Rightarrow> None
                | Some None \<Rightarrow> Some s
                | Some (Some node) \<Rightarrow>
                    let s1 = remove_node_from_queue (Some node) s;
                        s2 = s1\<lparr>node_pool := (node_pool s1)(node := (node_pool s1 node)
                                  \<lparr>n_next := rr_blocked_processes s1\<rparr>)\<rparr>;
                        s3 = (case rr_blocked_processes s2 of
                                Some b \<Rightarrow> s2\<lparr>node_pool := (node_pool s2)(b := (node_pool s2 b)
                                                 \<lparr>n_prev := Some node\<rparr>)\<rparr>
                              | None \<Rightarrow> s2)
                    in Some (s3\<lparr>rr_blocked_processes := Some node\<rparr>)))"

definition rr_unblock :: "nat option \<Rightarrow> rr_state \<Rightarrow> rr_state option" where
  "rr_unblock proc s =
     (case proc of
        None \<Rightarrow> Some s
      | Some p \<Rightarrow>
          (case find_in_chain NODE_POOL_SIZE (node_pool s) (rr_blocked_processes s) proc of
             None \<Rightarrow> None
           | Some None \<Rightarrow> Some s
           | Some (Some node) \<Rightarrow>
               let s1 = (case n_prev (node_pool s node) of
                           Some pv \<Rightarrow> s\<lparr>node_pool := (node_pool s)(pv := (node_pool s pv)
                                            \<lparr>n_next := n_next (node_pool s node)\<rparr>)\<rparr>
                         | None \<Rightarrow> s\<lparr>rr_blocked_processes := n_next (node_pool s node)\<rparr>);
                   s2 = (case n_next (node_pool s1 node) of
                           Some nx \<Rightarrow> s1\<lparr>node_pool := (node_pool s1)(nx := (node_pool s1 nx)
                                             \<lparr>n_prev := n_prev (node_pool s1 node)\<rparr>)\<rparr>
                         | None \<Rightarrow> s1);
                   s3 = s2\<lparr>node_pool := (node_pool s2)(node := (node_pool s2 node)
                             \<lparr>n_next := None, n_prev := None, n_wait_time := 0\<rparr>)\<rparr>
               in Some (add_to_ready_queue (Some node) s3)))"

text \<open>The wait-time loop of \<open>rr_timer_tick\<close>.\<close>

fun bump_wait_times :: "nat \<Rightarrow> nat option \<Rightarrow> rr_state \<Rightarrow> rr_state option" where
  "bump_wait_times fuel None s = Some s"
| "bump_wait_times 0 (Some c) s = None"
| "bump_wait_times (Suc fuel) (Some c) s =
     (let s1 = s\<lparr>node_pool := (node_pool s)(c := (node_pool s c)
                    \<lparr>n_wait_time := n_wait_time (node_pool s c) + 1\<rparr>)\<rparr>;
          s2 = s1\<lparr>rr_total_wait_time := rr_total_wait_time s1 + 1\<rparr>
      in bump_wait_times fuel (n_next (node_pool s2 c)) s2)"

definition rr_timer_tick :: "rr_state \<Rightarrow> rr_state option" where
  "rr_timer_tick s =
     (let s1 = s\<lparr>rr_current_tick := rr_current_tick s + 1\<rparr>;
          s2 = (if rr_current_process s1 \<noteq> None \<and> remaining_quantum s1 > 0
                then s1\<lparr>remaining_quantum := remaining_quantum s1 - 1\<rparr> else s1)
      in case bump_wait_times NODE_POOL_SIZE (ready_queue_head s2) s2 of
           None \<Rightarrow> None
         | Some s3 \<Rightarrow> Some (if remaining_quantum s3 = 0 then rr_schedule s3 else s3))"

text \<open>The zero-initialised static storage the scheduler starts from.\<close>

definition rr_boot_state :: rr_state where
  "rr_boot_state = \<lparr>node_pool = (\<lambda>_. \<lparr>n_process = None, n_next = None, n_prev = None,
                                        n_wait_time = 0\<rparr>),
     node_index = 0, ready_queue_head = None, ready_queue_tail = None,
     rr_blocked_processes = None, rr_current_process = None, time_quantum = 0,
     remaining_quantum = 0, process_count = 0, rr_context_switches = 0,
     rr_total_wait_time = 0, rr_current_tick = 0, rr_initialized = False\<rparr>"

text \<open>Where the scheduler keeps a process: as the current process, or in a node of the
  ready queue or of the blocked list.\<close>

definition rr_tracks :: "nat \<Rightarrow> rr_state \<Rightarrow> bool" where
  "rr_tracks p s \<longleftrightarrow>
     rr_current_process s = Some p \<or>
     (case find_process_node (Some p) s of Some (Some node) \<Rightarrow> True | _ \<Rightarrow> False)"

text \<open>A run of scheduler operations, none of them \<open>remove_process\<close>.\<close>

datatype rr_op = Init | Add_process nat | Schedule | Yield | Block nat | Unblock nat | Timer_tick

fun rr_step :: "rr_op \<Rightarrow> rr_state \<Rightarrow> rr_state option" where
  "rr_step Init s = Some (snd (rr_init s))"
| "rr_step (Add_process p) s = Some (rr_add_process (Some p) s)"
| "rr_step Schedule s = Some (rr_schedule s)"
| "rr_step Yield s = Some (rr_yield s)"
| "rr_step (Block p) s = rr_block (Some p) s"
| "rr_step (Unblock p) s = rr_unblock (Some p) s"
| "rr_step Timer_tick s = rr_timer_tick s"

fun rr_run :: "rr_op list \<Rightarrow> rr_state \<Rightarrow> rr_state option" where
  "rr_run [] s = Some s"
| "rr_run (x # xs) s = (case rr_step x s of None \<Rightarrow> None | Some s1 \<Rightarrow> rr_run xs s1)"

section \<open>Bitmap physical allocator (kernel/memory/bitmap\_allocator.c)\<close>

text \<open>
  The bitmap lives in the managed region itself, at \<open>start_addr\<close>; \<open>bitmap\<close> is that
  memory read as an array of 32-bit words, so a word the allocator never wrote holds
  whatever the memory held before.
\<close>

record bitmap_state =
  bitmap :: "nat \<Rightarrow> u32"
  bm_total_pages :: u32
  bm_free_pages :: u32
  bm_start_addr :: u32
  bm_page_size :: u32
  bm_last_allocated :: u32

definition PAGE_SIZE :: u32 where "PAGE_SIZE = 4096"
definition PAGES_PER_WORD :: u32 where "PAGES_PER_WORD = 32"

definition set_page_used :: "u32 \<Rightarrow> bitmap_state \<Rightarrow> bitmap_state" where
  "set_page_used page_num s =
     (let word_idx = unat (page_num div PAGES_PER_WORD);
          bit_idx = unat (page_num mod PAGES_PER_WORD)
      in s\<lparr>bitmap := (bitmap s)(word_idx := bitmap s word_idx OR push_bit bit_idx 1)\<rparr>)"

definition set_page_free :: "u32 \<Rightarrow> bitmap_state \<Rightarrow> bitmap_state" where
  "set_page_free page_num s =
     (let word_idx = unat (page_num div PAGES_PER_WORD);
          bit_idx = unat (page_num mod PAGES_PER_WORD)
      in s\<lparr>bitmap := (bitmap s)(word_idx := bitmap s word_idx AND NOT (push_bit bit_idx 1))\<rparr>)"

definition is_page_free :: "u32 \<Rightarrow> bitmap_state \<Rightarrow> bool" where
  "is_page_free page_num s =
     (let word_idx = unat (page_num div PAGES_PER_WORD);
          bit_idx = unat (page_num mod PAGES_PER_WORD)
      in bitmap s word_idx AND push_bit bit_idx 1 = 0)"

text \<open>\<open>find_free_page\<close>: first free page from \<open>start_page\<close> up to the end, then from 0 up
  to \<open>start_page\<close>; 0xFFFFFFFF if there is none.\<close>

definition find_free_page :: "u32 \<Rightarrow> bitmap_state \<Rightarrow> u32" where
  "find_free_page start_page s =
     (case find (\<lambda>page. is_page_free (of_nat page) s)
             [unat start_page..<unat (bm_total_pages s)] of
        Some page \<Rightarrow> of_nat page
      | None \<Rightarrow>
          (case find (\<lambda>page. is_page_free (of_nat page) s) [0..<unat start_page] of
             Some page \<Rightarrow> of_nat page
           | None \<Rightarrow> 0xFFFFFFFF))"

text \<open>\<open>bitmap_init\<close>; \<open>mem\<close> is what the memory at \<open>start_addr\<close> holds on entry.\<close>

definition bitmap_init :: "u32 \<Rightarrow> u32 \<Rightarrow> (nat \<Rightarrow> u32) \<Rightarrow> int \<times> bitmap_state" where
  "bitmap_init start_addr end_addr mem =
     (let total = (end_addr - start_addr) div PAGE_SIZE;
          s0 = \<lparr>bitmap = mem, bm_total_pages = total, bm_free_pages = total,
                bm_start_addr = start_addr, bm_page_size = PAGE_SIZE, bm_last_allocated = 0\<rparr>;
          bitmap_size = (total + PAGES_PER_WORD - 1) div PAGES_PER_WORD;
          s1 = fold (\<lambda>i s. s\<lparr>bitmap := (bitmap s)(i := 0)\<rparr>) [0..<unat bitmap_size] s0;
          bitmap_pages = (bitmap_size * 4 + PAGE_SIZE - 1) div PAGE_SIZE;
          s2 = fold (\<lambda>i s. (set_page_used (of_nat i) s)\<lparr>bm_free_pages := bm_free_pages s - 1\<rparr>)
                    [0..<unat bitmap_pages] s1
      in (0, s2))"

definition bitmap_alloc_page :: "bitmap_state \<Rightarrow> u32 \<times> bitmap_state" where
  "bitmap_alloc_page s =
     (if bm_free_pages s = 0 then (0, s)
      else let page_num = find_free_page (bm_last_allocated s) s
           in if page_num = 0xFFFFFFFF then (0, s)
              else let s1 = set_page_used page_num s;
                       s2 = s1\<lparr>bm_free_pages := bm_free_pages s1 - 1\<rparr>;
                       s3 = s2\<lparr>bm_last_allocated := page_num\<rparr>
                   in (bm_start_addr s3 + page_num * PAGE_SIZE, s3))"

text \<open>The inner check of \<open>bitmap_alloc_pages\<close>: are the \<open>count\<close> pages from \<open>start_page\<close>
  all free (the page number is computed in 32 bits).\<close>

definition run_is_free :: "u32 \<Rightarrow> u32 \<Rightarrow> bitmap_state \<Rightarrow> bool" where
  "run_is_free start_page count s =
     list_all (\<lambda>i. is_page_free (start_page + of_nat i) s) [0..<unat count]"

definition mark_run_used :: "u32 \<Rightarrow> u32 \<Rightarrow> bitmap_state \<Rightarrow> bitmap_state" where
  "mark_run_used start_page count s =
     fold (\<lambda>i t. (set_page_used (start_page + of_nat i) t)\<lparr>bm_free_pages := bm_free_pages t - 1\<rparr>)
          [0..<unat count] s"

text \<open>
  The outer loop \<open>for (start_page = 0; start_page <= total_pages - count; start_page++)\<close>.
  The bound is computed in 32 bits. When it is 0xFFFFFFFF the condition never fails, the
  counter wraps to 0 and the same fruitless scan repeats for ever: the result is
  \<open>None\<close>. Otherwise the result is \<open>Some\<close> of the first start page whose run is free, if
  any.
\<close>

function scan_from :: "nat \<Rightarrow> nat \<Rightarrow> u32 \<Rightarrow> bitmap_state \<Rightarrow> nat option option" where
  "scan_from start_page bound count s =
     (if start_page > bound then Some None
      else if run_is_free (of_nat start_page) count s then Some (Some start_page)
      else if start_page = 4294967295 then None
      else scan_from (Suc start_page) bound count s)"
  by pat_completeness auto
termination
  by (relation "measure (\<lambda>(start_page, bound, count, s). Suc bound - start_page)") auto

declare scan_from.simps [simp del]

definition bitmap_alloc_pages :: "u32 \<Rightarrow> bitmap_state \<Rightarrow> (u32 \<times> bitmap_state) option" where
  "bitmap_alloc_pages count s =
     (if count = 0 \<or> bm_free_pages s < count then Some (0, s)
      else case scan_from 0 (unat (bm_total_pages s - count)) count s of
             None \<Rightarrow> None
           | Some None \<Rightarrow> Some (0, s)
           | Some (Some start_page) \<Rightarrow>
               (let s1 = mark_run_used (of_nat start_page) count s
                in Some (bm_start_addr s1 + of_nat start_page * PAGE_SIZE, s1)))"

definition bitmap_free_page :: "u32 \<Rightarrow> bitmap_state \<Rightarrow> bitmap_state" where
  "bitmap_free_page paddr s =
     (if paddr < bm_start_addr s then s
      else let page_num = (paddr - bm_start_addr s) div PAGE_SIZE
           in if page_num \<ge> bm_total_pages s then s
              else if is_page_free page_num s then s
              else let s1 = set_page_free page_num s
                   in s1\<lparr>bm_free_pages := bm_free_pages s1 + 1\<rparr>)"

definition bitmap_free_pages :: "u32 \<Rightarrow> u32 \<Rightarrow> bitmap_state \<Rightarrow> bitmap_state" where
  "bitmap_free_pages paddr count s =
     fold (\<lambda>i t. bitmap_free_page (paddr + of_nat i * PAGE_SIZE) t) [0..<unat count] s"

text \<open>
  Scenario S2 up to the point of the contiguous request: initialise a 16-page region
  at \<open>start\<close>, allocate four single pages, free the second one allocated.
\<close>

definition s2_before_request :: "u32 \<Rightarrow> (nat \<Rightarrow> u32) \<Rightarrow> u32 \<times> bitmap_state" where
  "s2_before_request start mem =
     (let (r, s0) = bitmap_init start (start + 16 * PAGE_SIZE) mem;
          (a1, s1) = bitmap_alloc_page s0;
          (a2, s2) = bitmap_alloc_page s1;
          (a3, s3) = bitmap_alloc_page s2;
          (a4, s4) = bitmap_alloc_page s3
      in (a2, bitmap_free_page a2 s4))"

text \<open>The states the scenario passes through differ in the first bitmap word, the
  free-page count and the cursor only.\<close>

definition bm16 :: "u32 \<Rightarrow> (nat \<Rightarrow> u32) \<Rightarrow> u32 \<Rightarrow> u32 \<Rightarrow> u32 \<Rightarrow> bitmap_state" where
  "bm16 start mem w f l = \<lparr>bitmap = mem(0 := w), bm_total_pages = 16, bm_free_pages = f,
          bm_start_addr = start, bm_page_size = 4096, bm_last_allocated = l\<rparr>"

definition zero_memory :: "nat \<Rightarrow> u32" where
  "zero_memory = (\<lambda>_. 0)"

section \<open>Buddy physical allocator (kernel/memory/buddy\_allocator.c)\<close>

text \<open>
  One \<open>buddy_block_t\<close> record per page, stored as an array at the start of the region.
  A pointer to a record is represented by the record's index in that array (the page
  index), a null pointer by \<open>None\<close>; pointer comparison is index comparison. The
  \<open>order\<close> field is a \<open>uint8_t\<close>; every value the code stores in it is at most 21, so
  it is a natural number here.
\<close>

record buddy_block =
  b_next :: "nat option"
  b_prev :: "nat option"
  b_is_free :: bool
  b_order :: nat

record buddy_state =
  memory_start :: u32
  total_size :: u32
  total_pages :: u32
  free_lists :: "nat \<Rightarrow> nat option"
  block_metadata :: "nat \<Rightarrow> buddy_block"
  allocated_pages :: u32
  allocation_count :: u32

definition MAX_ORDER :: nat where "MAX_ORDER = 20"

text \<open>\<open>sizeof(buddy_block_t)\<close> on the 32-bit target: two 4-byte pointers, a \<open>bool\<close> and a
  \<open>uint8_t\<close>, padded to a multiple of 4.\<close>

definition sizeof_buddy_block :: u32 where "sizeof_buddy_block = 12"

definition SIZE_TO_PAGES :: "u32 \<Rightarrow> u32" where
  "SIZE_TO_PAGES sz = (sz + PAGE_SIZE - 1) div PAGE_SIZE"

definition BLOCK_SIZE :: "nat \<Rightarrow> u32" where
  "BLOCK_SIZE order = push_bit order 1"

definition GET_BUDDY_INDEX :: "nat \<Rightarrow> nat \<Rightarrow> nat" where
  "GET_BUDDY_INDEX index order = unat ((of_nat index :: u32) XOR push_bit order 1)"

definition add_to_free_list :: "nat \<Rightarrow> nat \<Rightarrow> buddy_state \<Rightarrow> buddy_state" where
  "add_to_free_list block order s =
     (let md1 = (block_metadata s)(block := (block_metadata s block)
                   \<lparr>b_next := free_lists s order, b_prev := None,
                    b_is_free := True, b_order := order\<rparr>);
          md2 = (case free_lists s order of
                   None \<Rightarrow> md1
                 | Some h \<Rightarrow> md1(h := (md1 h)\<lparr>b_prev := Some block\<rparr>))
      in s\<lparr>block_metadata := md2, free_lists := (free_lists s)(order := Some block)\<rparr>)"

definition remove_from_free_list :: "nat \<Rightarrow> nat \<Rightarrow> buddy_state \<Rightarrow> buddy_state" where
  "remove_from_free_list block order s =
     (let md = block_metadata s;
          s1 = (case b_prev (md block) of
                  Some p \<Rightarrow> s\<lparr>block_metadata := md(p := (md p)\<lparr>b_next := b_next (md block)\<rparr>)\<rparr>
                | None \<Rightarrow> s\<lparr>free_lists := (free_lists s)(order := b_next (md block))\<rparr>);
          md1 = block_metadata s1;
          md2 = (case b_next (md1 block) of
                   Some n \<Rightarrow> md1(n := (md1 n)\<lparr>b_prev := b_prev (md1 block)\<rparr>)
                 | None \<Rightarrow> md1);
          md3 = md2(block := (md2 block)\<lparr>b_is_free := False, b_next := None, b_prev := None\<rparr>)
      in s1\<lparr>block_metadata := md3\<rparr>)"

definition get_buddy :: "nat \<Rightarrow> nat \<Rightarrow> buddy_state \<Rightarrow> nat option" where
  "get_buddy block order s =
     (let buddy_index = GET_BUDDY_INDEX block order
      in if buddy_index \<ge> unat (total_pages s) then None else Some buddy_index)"

text \<open>The loop of \<open>split_block\<close>, from the block's current order down to the target.\<close>

function split_loop :: "nat \<Rightarrow> nat \<Rightarrow> nat \<Rightarrow> buddy_state \<Rightarrow> buddy_state" where
  "split_loop block current_order target_order s =
     (if current_order > target_order then
        let c = current_order - 1;
            s1 = (case get_buddy block c s of
                    Some buddy \<Rightarrow> add_to_free_list buddy c s
                  | None \<Rightarrow> s);
            s2 = s1\<lparr>block_metadata := (block_metadata s1)
                      (block := (block_metadata s1 block)\<lparr>b_order := c\<rparr>)\<rparr>
        in split_loop block c target_order s2
      else s)"
  by pat_completeness auto
termination
  by (relation "measure (\<lambda>(block, current_order, target_order, s). current_order)") auto

declare split_loop.simps [simp del]

definition split_block :: "nat \<Rightarrow> nat \<Rightarrow> buddy_state \<Rightarrow> nat \<times> buddy_state" where
  "split_block block target_order s =
     (block, split_loop block (b_order (block_metadata s block)) target_order s)"

text \<open>The loop of \<open>merge_block\<close>.\<close>

function merge_loop :: "nat \<Rightarrow> nat \<Rightarrow> buddy_state \<Rightarrow> nat \<times> buddy_state" where
  "merge_loop block order s =
     (if order < MAX_ORDER then
        (case get_buddy block order s of
           None \<Rightarrow> (block, s)
         | Some buddy \<Rightarrow>
             if \<not> b_is_free (block_metadata s buddy) \<or> b_order (block_metadata s buddy) \<noteq> order
             then (block, s)
             else
               let s1 = remove_from_free_list buddy order s;
                   block' = (if buddy < block then buddy else block);
                   s2 = s1\<lparr>block_metadata := (block_metadata s1)
                             (block' := (block_metadata s1 block')\<lparr>b_order := order + 1\<rparr>)\<rparr>
               in merge_loop block' (order + 1) s2)
      else (block, s))"
  by pat_completeness auto
termination
  by (relation "measure (\<lambda>(block, order, s). MAX_ORDER - order)") auto

declare merge_loop.simps [simp del]

definition merge_block :: "nat \<Rightarrow> buddy_state \<Rightarrow> nat \<times> buddy_state" where
  "merge_block block s = merge_loop block (b_order (block_metadata s block)) s"

text \<open>\<open>get_order_for_pages\<close>: \<open>block_pages\<close> doubles from 1 and never exceeds 2^21, so
  the 32-bit shift does not overflow; 0xFF reports failure.\<close>

function order_loop :: "nat \<Rightarrow> nat \<Rightarrow> nat \<Rightarrow> nat" where
  "order_loop order block_pages pages =
     (if block_pages < pages \<and> order \<le> MAX_ORDER
      then order_loop (order + 1) (2 * block_pages) pages
      else order)"
  by pat_completeness auto
termination
  by (relation "measure (\<lambda>(order, block_pages, pages). Suc MAX_ORDER - order)") auto

declare order_loop.simps [simp del]

definition get_order_for_pages :: "u32 \<Rightarrow> nat" where
  "get_order_for_pages pages =
     (let order = order_loop 0 1 (unat pages)
      in if order \<le> MAX_ORDER then order else 0xFF)"

text \<open>
  \<open>buddy_init\<close>. The inner loop finds the largest order whose block fits in the pages
  that remain; the outer loop carves the region after the metadata pages into such
  blocks. Each block is at most as large as what remains, so \<open>current_page\<close> never
  passes \<open>total_pages\<close> and the 32-bit additions do not wrap. \<open>mem\<close> is what the memory
  at \<open>start_addr\<close>, read as block records, holds on entry.
\<close>

function largest_fit :: "nat \<Rightarrow> nat \<Rightarrow> nat" where
  "largest_fit remaining_pages max_order =
     (if 2 ^ (max_order + 1) \<le> remaining_pages \<and> max_order < MAX_ORDER
      then largest_fit remaining_pages (max_order + 1)
      else max_order)"
  by pat_completeness auto
termination
  by (relation "measure (\<lambda>(remaining_pages, max_order). MAX_ORDER - max_order)") auto

declare largest_fit.simps [simp del]

function carve :: "nat \<Rightarrow> nat \<Rightarrow> buddy_state \<Rightarrow> buddy_state" where
  "carve current_page npages s =
     (if current_page < npages then
        let remaining_pages = npages - current_page;
            max_order = largest_fit remaining_pages 0;
            s1 = add_to_free_list current_page max_order s
        in carve (current_page + 2 ^ max_order) npages s1
      else s)"
  by pat_completeness auto
termination
  by (relation "measure (\<lambda>(current_page, npages, s). npages - current_page)")
     (auto intro!: diff_less_mono2)

declare carve.simps [simp del]

definition blank_block :: buddy_block where
  "blank_block = \<lparr>b_next = None, b_prev = None, b_is_free = False, b_order = 0\<rparr>"

definition buddy_init :: "u32 \<Rightarrow> u32 \<Rightarrow> (nat \<Rightarrow> buddy_block) \<Rightarrow> int \<times> buddy_state" where
  "buddy_init start_addr end_addr mem =
     (let sz = end_addr - start_addr;
          npages = sz div PAGE_SIZE;
          s0 = \<lparr>memory_start = start_addr, total_size = sz, total_pages = npages,
                free_lists = (\<lambda>_. None),
                block_metadata = (\<lambda>i. if i < unat npages then blank_block else mem i),
                allocated_pages = 0, allocation_count = 0\<rparr>;
          metadata_size = npages * sizeof_buddy_block;
          metadata_pages = SIZE_TO_PAGES metadata_size
      in (0, carve (unat metadata_pages) (unat npages) s0))"

text \<open>The search of \<open>buddy_alloc_pages\<close> for the first non-empty free list from
  \<open>order\<close> up to MAX\_ORDER.\<close>

definition first_nonempty :: "nat \<Rightarrow> buddy_state \<Rightarrow> nat option" where
  "first_nonempty order s =
     find (\<lambda>search_order. free_lists s search_order \<noteq> None) [order..<Suc MAX_ORDER]"

definition buddy_alloc_pages :: "u32 \<Rightarrow> buddy_state \<Rightarrow> u32 \<times> buddy_state" where
  "buddy_alloc_pages count s =
     (if count = 0 then (0, s)
      else let order = get_order_for_pages count
           in if order = 0xFF then (0, s)
              else case first_nonempty order s of
                     None \<Rightarrow> (0, s)
                   | Some search_order \<Rightarrow>
                       (case free_lists s search_order of
                          None \<Rightarrow> (0, s)
                        | Some block \<Rightarrow>
                            let s1 = remove_from_free_list block search_order s;
                                s2 = (if b_order (block_metadata s1 block) > order
                                      then snd (split_block block order s1) else s1);
                                s3 = s2\<lparr>block_metadata := (block_metadata s2)
                                          (block := (block_metadata s2 block)\<lparr>b_is_free := False\<rparr>)\<rparr>;
                                s4 = s3\<lparr>allocated_pages := allocated_pages s3 + BLOCK_SIZE order\<rparr>;
                                s5 = s4\<lparr>allocation_count := allocation_count s4 + 1\<rparr>
                            in (memory_start s5 + of_nat block * PAGE_SIZE, s5)))"

definition buddy_alloc_page :: "buddy_state \<Rightarrow> u32 \<times> buddy_state" where
  "buddy_alloc_page s = buddy_alloc_pages 1 s"

definition buddy_free_pages :: "u32 \<Rightarrow> u32 \<Rightarrow> buddy_state \<Rightarrow> buddy_state" where
  "buddy_free_pages paddr count s =
     (if paddr < memory_start s then s
      else let page_index = (paddr - memory_start s) div PAGE_SIZE
           in if page_index \<ge> total_pages s then s
              else let block = unat page_index
                   in if b_is_free (block_metadata s block) then s
                      else let s1 = s\<lparr>allocated_pages := allocated_pages s
                                         - BLOCK_SIZE (b_order (block_metadata s block))\<rparr>;
                               s2 = s1\<lparr>allocation_count := allocation_count s1 - 1\<rparr>;
                               (merged, s3) = merge_block block s2
                           in add_to_free_list merged (b_order (block_metadata s3 merged)) s3)"

definition buddy_free_page :: "u32 \<Rightarrow> buddy_state \<Rightarrow> buddy_state" where
  "buddy_free_page paddr s = buddy_free_pages paddr 1 s"

definition buddy_get_free_pages :: "buddy_state \<Rightarrow> u32" where
  "buddy_get_free_pages s = total_pages s - allocated_pages s"

definition buddy_get_total_pages :: "buddy_state \<Rightarrow> u32" where
  "buddy_get_total_pages s = total_pages s"

definition buddy_alloc_aligned :: "u32 \<Rightarrow> u32 \<Rightarrow> buddy_state \<Rightarrow> u32 \<times> buddy_state" where
  "buddy_alloc_aligned sz alignment s =
     (let pages_needed = SIZE_TO_PAGES sz;
          order = get_order_for_pages pages_needed
      in if order = 0xFF then (0, s)
         else buddy_alloc_pages (BLOCK_SIZE order) s)"

text \<open>
  What the free lists hold, as \<open>buddy_print_stats\<close> counts it: the blocks reached from
  a list head through \<open>next\<close>. A well-formed list has fewer members than there are
  pages, which bounds the walk.
\<close>

fun walk_list :: "nat \<Rightarrow> (nat \<Rightarrow> buddy_block) \<Rightarrow> nat option \<Rightarrow> nat list" where
  "walk_list 0 md h = []"
| "walk_list (Suc n) md None = []"
| "walk_list (Suc n) md (Some b) = b # walk_list n md (b_next (md b))"

definition free_list_blocks :: "buddy_state \<Rightarrow> nat \<Rightarrow> nat list" where
  "free_list_blocks s k = walk_list (unat (total_pages s)) (block_metadata s) (free_lists s k)"

definition pages_on_free_lists :: "buddy_state \<Rightarrow> nat" where
  "pages_on_free_lists s = (\<Sum>k \<leftarrow> [0..<Suc MAX_ORDER]. length (free_list_blocks s k) * 2 ^ k)"

definition metadata_pages_of :: "buddy_state \<Rightarrow> u32" where
  "metadata_pages_of s = SIZE_TO_PAGES (total_pages s * sizeof_buddy_block)"

text \<open>The 64-page region of scenario S1, placed at 1 MiB, with blank memory before
  initialisation.\<close>

definition region64 :: buddy_state where
  "region64 = snd (buddy_init 0x100000 0x140000 (\<lambda>_. blank_block))"

section \<open>Subsystem registry (kernel/interfaces/kernel\_interfaces.c)\<close>

text \<open>
  A registry slot holds a pointer to an operations table. The tables the kernel itself
  provides are named; any other table (a host's or a student's) is known by its address.
\<close>

datatype physical_allocator_ops = bitmap_allocator_ops | buddy_allocator_ops
  | other_physical_allocator nat
datatype scheduler_ops = round_robin_scheduler_ops | priority_scheduler_ops
  | other_scheduler nat
datatype ipc_transport_ops = message_queue_ipc_ops | shared_memory_ipc_ops
  | other_ipc_transport nat

record kernel_registry =
  physical_allocator :: "physical_allocator_ops option"
  virtual_memory :: "nat option"
  heap_allocator :: "nat option"
  scheduler :: "scheduler_ops option"
  process_loader :: "nat option"
  ipc_transport :: "ipc_transport_ops option"
  device_drivers :: "nat option"
  num_drivers :: u32

definition register_physical_allocator ::
  "physical_allocator_ops option \<Rightarrow> kernel_registry \<Rightarrow> int \<times> kernel_registry" where
  "register_physical_allocator ops reg =
     (case ops of None \<Rightarrow> (-1, reg) | Some t \<Rightarrow> (0, reg\<lparr>physical_allocator := Some t\<rparr>))"

definition register_scheduler ::
  "scheduler_ops option \<Rightarrow> kernel_registry \<Rightarrow> int \<times> kernel_registry" where
  "register_scheduler ops reg =
     (case ops of None \<Rightarrow> (-1, reg) | Some t \<Rightarrow> (0, reg\<lparr>scheduler := Some t\<rparr>))"

definition register_ipc_transport ::
  "ipc_transport_ops option \<Rightarrow> kernel_registry \<Rightarrow> int \<times> kernel_registry" where
  "register_ipc_transport ops reg =
     (case ops of None \<Rightarrow> (-1, reg) | Some t \<Rightarrow> (0, reg\<lparr>ipc_transport := Some t\<rparr>))"

text \<open>Reading \<open>str[i]\<close> from a NUL-terminated string: the terminator follows the last
  character.\<close>

definition char_at :: "string \<Rightarrow> nat \<Rightarrow> char" where
  "char_at str i = (if i < length str then str ! i else CHR 0x00)"

text \<open>\<open>switch_component\<close>; \<open>None\<close> stands for a null pointer.\<close>

definition switch_component ::
  "string option \<Rightarrow> string option \<Rightarrow> kernel_registry \<Rightarrow> int \<times> kernel_registry" where
  "switch_component component_type component_name reg =
     (case (component_type, component_name) of
        (Some ty, Some nm) \<Rightarrow>
          if char_at ty 0 = CHR ''p'' \<and> char_at ty 1 = CHR ''h'' then
            (if char_at nm 0 = CHR ''b'' \<and> char_at nm 1 = CHR ''i''
               then register_physical_allocator (Some bitmap_allocator_ops) reg
             else if char_at nm 0 = CHR ''b'' \<and> char_at nm 1 = CHR ''u''
               then register_physical_allocator (Some buddy_allocator_ops) reg
             else (-1, reg))
          else if char_at ty 0 = CHR ''s'' then
            (if char_at nm 0 = CHR ''r''
               then register_scheduler (Some round_robin_scheduler_ops) reg
             else if char_at nm 0 = CHR ''p''
               then register_scheduler (Some priority_scheduler_ops) reg
             else (-1, reg))
          else if char_at ty 0 = CHR ''i'' then
            (if char_at nm 0 = CHR ''m''
               then register_ipc_transport (Some message_queue_ipc_ops) reg
             else if char_at nm 0 = CHR ''s''
               then register_ipc_transport (Some shared_memory_ipc_ops) reg
             else (-1, reg))
          else (-1, reg)
      | _ \<Rightarrow> (-1, reg))"

definition init_kernel_registry :: "kernel_registry \<Rightarrow> kernel_registry" where
  "init_kernel_registry reg =
     (let (r1, reg1) = register_physical_allocator (Some bitmap_allocator_ops) reg;
          (r2, reg2) = register_scheduler (Some round_robin_scheduler_ops) reg1;
          (r3, reg3) = register_ipc_transport (Some message_queue_ipc_ops) reg2
      in reg3)"

text \<open>The zero-initialised global \<open>g_kernel_registry\<close>.\<close>

definition g_kernel_registry :: kernel_registry where
  "g_kernel_registry = \<lparr>physical_allocator = None, virtual_memory = None,
     heap_allocator = None, scheduler = None, process_loader = None, ipc_transport = None,
     device_drivers = None, num_drivers = 0\<rparr>"

text \<open>The role identifiers and built-in variant names as the registry boundary lists
  them, and what the switch keys on: the leading characters only.\<close>

definition builtin_variant_names :: "string \<Rightarrow> string list" where
  "builtin_variant_names role =
     (if role = ''physical_allocator'' then [''bitmap'', ''buddy'']
      else if role = ''scheduler'' then [''round_robin'', ''priority'']
      else if role = ''ipc_transport'' then [''message_queue'', ''shared_memory'']
      else [])"

definition leading_chars_accepted :: "string \<Rightarrow> string \<Rightarrow> bool" where
  "leading_chars_accepted ty nm \<longleftrightarrow>
     (if take 2 ty = ''ph'' then take 2 nm = ''bi'' \<or> take 2 nm = ''bu''
      else if take 1 ty = ''s'' then take 1 nm = ''r'' \<or> take 1 nm = ''p''
      else if take 1 ty = ''i'' then take 1 nm = ''m'' \<or> take 1 nm = ''s''
      else False)"

text \<open>The default registry after the scheduler has been switched to "priority".\<close>

definition registry_with_priority :: kernel_registry where
  "registry_with_priority =
     snd (switch_component (Some ''scheduler'') (Some ''priority'')
            (init_kernel_registry g_kernel_registry))"

section \<open>IPC message envelope (kernel/interfaces/kernel\_interfaces.h)\<close>

text \<open>The payload array \<open>data[IPC_MAX_MESSAGE_SIZE]\<close> is a function from byte index to
  byte; \<open>type\<close> and \<open>size\<close> are spelt \<open>msg_type\<close> and \<open>msg_size\<close>.\<close>

record ipc_message =
  sender_id :: u32
  receiver_id :: u32
  message_id :: u32
  msg_type :: u32
  msg_size :: u32
  msg_data :: "nat \<Rightarrow> u8"
  timestamp :: u32
  flags :: u32

section \<open>Shared-memory IPC (kernel/ipc/shared\_memory\_ipc.c)\<close>

text \<open>
  A region's \<open>memory\<close> pointer is an offset into the static \<open>shared_pool\<close>, or \<open>None\<close>
  for null. The only thing the transport keeps in a region's memory is one
  \<open>shared_message_t\<close> at its start, so the pool is modelled as the message stored at each
  offset. An operation that spins for ever in \<open>acquire_lock\<close>, or that would
  dereference a null \<open>memory\<close> pointer, does not return: its value is \<open>None\<close>.
\<close>

record shared_message =
  sm_sender_id :: u32
  sm_receiver_id :: u32
  sm_message_id :: u32
  sm_size :: u32
  sm_data :: "nat \<Rightarrow> u8"
  sm_valid :: bool

record shared_region =
  region_id :: u32
  creator_id :: u32
  participants :: "nat \<Rightarrow> u32"
  participant_count :: nat
  memory :: "nat option"
  region_size :: u32
  permissions :: u32
  in_use :: bool
  lock :: bool
  read_index :: u32
  write_index :: u32
  has_data :: bool

record shm_state =
  regions :: "nat \<Rightarrow> shared_region"
  next_region_id :: u32
  active_regions :: u32
  total_messages_sent :: u32
  total_messages_received :: u32
  shm_initialized :: bool
  shared_pool :: "nat \<Rightarrow> shared_message"
  pool_offset :: nat

definition MAX_SHARED_REGIONS :: nat where "MAX_SHARED_REGIONS = 64"






text \<open>The lookup loop shared by send, receive, destroy and the flow-control queries:
  the first region in use whose id is the channel id read as unsigned.\<close>

definition find_region_by_id :: "int \<Rightarrow> shm_state \<Rightarrow> nat option" where
  "find_region_by_id channel_id s =
     find (\<lambda>i. in_use (regions s i) \<and> region_id (regions s i) = word_of_int channel_id)
          [0..<MAX_SHARED_REGIONS]"





definition shm_destroy_channel :: "int \<Rightarrow> shm_state \<Rightarrow> shm_state" where
  "shm_destroy_channel channel_id s =
     (case find_region_by_id channel_id s of
        None \<Rightarrow> s
      | Some i \<Rightarrow> s\<lparr>regions := (regions s)(i := (regions s i)\<lparr>in_use := False, memory := None\<rparr>),
                     active_regions := active_regions s - 1\<rparr>)"





definition shm_can_send :: "int \<Rightarrow> shm_state \<Rightarrow> bool" where
  "shm_can_send channel_id s =
     (case find_region_by_id channel_id s of None \<Rightarrow> False
      | Some i \<Rightarrow> \<not> has_data (regions s i))"

definition shm_has_messages :: "int \<Rightarrow> shm_state \<Rightarrow> bool" where
  "shm_has_messages channel_id s =
     (case find_region_by_id channel_id s of None \<Rightarrow> False
      | Some i \<Rightarrow> has_data (regions s i))"














section \<open>Message-queue IPC (kernel/ipc/message\_queue\_ipc.c)\<close>

text \<open>
  A pointer to a queue entry is the entry's index in the static \<open>entry_pool\<close>, a
  pointer to a channel is the channel's index in \<open>channels\<close>; \<open>None\<close> is the null
  pointer. A channel's queue is the chain of pool entries from \<open>queue_head\<close> through the
  \<open>next\<close> links.
\<close>

record message_entry =
  e_message :: ipc_message
  e_next :: "nat option"
  e_timestamp :: u32

record message_channel =
  channel_id :: u32
  ch_sender_id :: u32
  ch_receiver_id :: u32
  queue_head :: "nat option"
  queue_tail :: "nat option"
  queue_size :: u32
  max_queue_size :: u32
  is_blocking :: bool
  ch_in_use :: bool
  messages_sent :: u32
  messages_received :: u32
  messages_dropped :: u32

record mq_state =
  channels :: "nat \<Rightarrow> message_channel"
  next_channel_id :: u32
  active_channels :: u32
  mq_current_tick :: u32
  mq_initialized :: bool
  entry_pool :: "nat \<Rightarrow> message_entry"
  entry_used :: "nat \<Rightarrow> bool"
  next_entry_index :: nat

definition MAX_CHANNELS :: nat where "MAX_CHANNELS = 32"
definition MAX_QUEUE_DEPTH :: nat where "MAX_QUEUE_DEPTH = 16"
definition POOL_SIZE :: nat where "POOL_SIZE = MAX_CHANNELS * MAX_QUEUE_DEPTH"

definition alloc_message_entry :: "mq_state \<Rightarrow> nat option \<times> mq_state" where
  "alloc_message_entry s =
     (case find (\<lambda>i. \<not> entry_used s ((next_entry_index s + i) mod POOL_SIZE)) [0..<POOL_SIZE] of
        None \<Rightarrow> (None, s)
      | Some i \<Rightarrow>
          let index = (next_entry_index s + i) mod POOL_SIZE
          in (Some index, s\<lparr>entry_used := (entry_used s)(index := True),
                            next_entry_index := (index + 1) mod POOL_SIZE\<rparr>))"

definition free_message_entry :: "nat option \<Rightarrow> mq_state \<Rightarrow> mq_state" where
  "free_message_entry entry s =
     (case entry of
        None \<Rightarrow> s
      | Some index \<Rightarrow>
          if index < POOL_SIZE then s\<lparr>entry_used := (entry_used s)(index := False)\<rparr> else s)"

definition find_channel_by_id :: "int \<Rightarrow> mq_state \<Rightarrow> nat option" where
  "find_channel_by_id cid s =
     find (\<lambda>i. ch_in_use (channels s i) \<and> channel_id (channels s i) = word_of_int cid)
          [0..<MAX_CHANNELS]"

definition find_channel_by_participants :: "u32 \<Rightarrow> u32 \<Rightarrow> mq_state \<Rightarrow> nat option" where
  "find_channel_by_participants sender receiver s =
     find (\<lambda>i. ch_in_use (channels s i) \<and> ch_sender_id (channels s i) = sender
                \<and> ch_receiver_id (channels s i) = receiver)
          [0..<MAX_CHANNELS]"

definition find_free_channel :: "mq_state \<Rightarrow> int" where
  "find_free_channel s =
     (case find (\<lambda>i. \<not> ch_in_use (channels s i)) [0..<MAX_CHANNELS] of
        None \<Rightarrow> -1 | Some i \<Rightarrow> int i)"

definition enqueue_message :: "nat \<Rightarrow> nat \<Rightarrow> mq_state \<Rightarrow> mq_state" where
  "enqueue_message ch entry s =
     (let s1 = s\<lparr>entry_pool := (entry_pool s)(entry := (entry_pool s entry)
                    \<lparr>e_next := None, e_timestamp := mq_current_tick s\<rparr>)\<rparr>;
          s2 = (case queue_tail (channels s1 ch) of
                  Some t \<Rightarrow> s1\<lparr>entry_pool := (entry_pool s1)(t := (entry_pool s1 t)
                                   \<lparr>e_next := Some entry\<rparr>)\<rparr>
                | None \<Rightarrow> s1\<lparr>channels := (channels s1)(ch := (channels s1 ch)
                                   \<lparr>queue_head := Some entry\<rparr>)\<rparr>)
      in s2\<lparr>channels := (channels s2)(ch := (channels s2 ch)
               \<lparr>queue_tail := Some entry, queue_size := queue_size (channels s2 ch) + 1\<rparr>)\<rparr>)"

definition dequeue_message :: "nat \<Rightarrow> mq_state \<Rightarrow> nat option \<times> mq_state" where
  "dequeue_message ch s =
     (case queue_head (channels s ch) of
        None \<Rightarrow> (None, s)
      | Some entry \<Rightarrow>
          let s1 = s\<lparr>channels := (channels s)(ch := (channels s ch)
                        \<lparr>queue_head := e_next (entry_pool s entry)\<rparr>)\<rparr>;
              s2 = (if queue_head (channels s1 ch) = None
                    then s1\<lparr>channels := (channels s1)(ch := (channels s1 ch)
                                \<lparr>queue_tail := None\<rparr>)\<rparr>
                    else s1);
              s3 = s2\<lparr>channels := (channels s2)(ch := (channels s2 ch)
                        \<lparr>queue_size := queue_size (channels s2 ch) - 1\<rparr>)\<rparr>;
              s4 = s3\<lparr>entry_pool := (entry_pool s3)(entry := (entry_pool s3 entry)
                        \<lparr>e_next := None\<rparr>)\<rparr>
          in (Some entry, s4))"

definition blank_channel :: "message_channel \<Rightarrow> message_channel" where
  "blank_channel c = c\<lparr>channel_id := 0, ch_sender_id := 0, ch_receiver_id := 0,
     queue_head := None, queue_tail := None, queue_size := 0,
     max_queue_size := of_nat MAX_QUEUE_DEPTH, is_blocking := True, ch_in_use := False,
     messages_sent := 0, messages_received := 0, messages_dropped := 0\<rparr>"

definition mq_init :: "mq_state \<Rightarrow> int \<times> mq_state" where
  "mq_init s =
     (if mq_initialized s then (0, s)
      else (0, s\<lparr>channels := (\<lambda>i. if i < MAX_CHANNELS then blank_channel (channels s i)
                                    else channels s i),
                 entry_used := (\<lambda>i. if i < POOL_SIZE then False else entry_used s i),
                 next_channel_id := 1, active_channels := 0, mq_current_tick := 0,
                 next_entry_index := 0, mq_initialized := True\<rparr>))"

definition mq_create_channel :: "u32 \<Rightarrow> u32 \<Rightarrow> mq_state \<Rightarrow> int \<times> mq_state" where
  "mq_create_channel sender receiver s =
     (case find_channel_by_participants sender receiver s of
        Some e \<Rightarrow> (sint (channel_id (channels s e)), s)
      | None \<Rightarrow>
          let channel_index = find_free_channel s
          in if channel_index < 0 then (-1, s)
             else let ch = nat channel_index;
                      c = (channels s ch)
                            \<lparr>channel_id := next_channel_id s, ch_sender_id := sender,
                             ch_receiver_id := receiver, queue_head := None,
                             queue_tail := None, queue_size := 0,
                             max_queue_size := of_nat MAX_QUEUE_DEPTH, is_blocking := True,
                             ch_in_use := True, messages_sent := 0, messages_received := 0,
                             messages_dropped := 0\<rparr>;
                      s1 = s\<lparr>channels := (channels s)(ch := c),
                              next_channel_id := next_channel_id s + 1\<rparr>
                  in (sint (channel_id c), s1\<lparr>active_channels := active_channels s1 + 1\<rparr>))"

text \<open>
  The loop \<open>while (ch->queue_head) { entry = dequeue_message(ch); free_message_entry(entry); }\<close>.
  Each round clears the \<open>next\<close> link of the entry it removes, so even a chain that
  loops back on itself is left after at most one round per pool entry and one more;
  the fuel, POOL\_SIZE + 1 rounds, is never used up by chains inside the pool.
\<close>

fun drain_queue :: "nat \<Rightarrow> nat \<Rightarrow> mq_state \<Rightarrow> mq_state option" where
  "drain_queue fuel ch s =
     (case queue_head (channels s ch) of
        None \<Rightarrow> Some s
      | Some h \<Rightarrow>
          (case fuel of
             0 \<Rightarrow> None
           | Suc f \<Rightarrow> (case dequeue_message ch s of
                         (entry, s1) \<Rightarrow> drain_queue f ch (free_message_entry entry s1))))"

declare drain_queue.simps [simp del]

definition mq_destroy_channel :: "int \<Rightarrow> mq_state \<Rightarrow> mq_state option" where
  "mq_destroy_channel cid s =
     (case find_channel_by_id cid s of
        None \<Rightarrow> Some s
      | Some ch \<Rightarrow>
          (case drain_queue (Suc POOL_SIZE) ch s of
             None \<Rightarrow> None
           | Some s1 \<Rightarrow>
               Some (s1\<lparr>channels := (channels s1)(ch := (channels s1 ch)\<lparr>ch_in_use := False\<rparr>),
                        active_channels := active_channels s1 - 1\<rparr>)))"

text \<open>\<open>mq_shutdown\<close>: the loop over all channel slots, each drained like a destroyed
  channel, whether in use or not.\<close>

fun shutdown_channels :: "nat list \<Rightarrow> mq_state \<Rightarrow> mq_state option" where
  "shutdown_channels [] s = Some s"
| "shutdown_channels (i # rest) s =
     (case drain_queue (Suc POOL_SIZE) i s of
        None \<Rightarrow> None
      | Some s1 \<Rightarrow>
          shutdown_channels rest
            (s1\<lparr>channels := (channels s1)(i := (channels s1 i)\<lparr>ch_in_use := False\<rparr>)\<rparr>))"

definition mq_shutdown :: "mq_state \<Rightarrow> mq_state option" where
  "mq_shutdown s =
     (case shutdown_channels [0..<MAX_CHANNELS] s of
        None \<Rightarrow> None
      | Some s1 \<Rightarrow> Some (s1\<lparr>active_channels := 0, mq_initialized := False\<rparr>))"

definition bump_dropped :: "nat \<Rightarrow> mq_state \<Rightarrow> mq_state" where
  "bump_dropped ch s =
     s\<lparr>channels := (channels s)(ch := (channels s ch)
          \<lparr>messages_dropped := messages_dropped (channels s ch) + 1\<rparr>)\<rparr>"

definition mq_send_message :: "int \<Rightarrow> ipc_message option \<Rightarrow> mq_state \<Rightarrow> int \<times> mq_state" where
  "mq_send_message cid msgp s =
     (case msgp of
        None \<Rightarrow> (-1, s)
      | Some msg \<Rightarrow>
          (case find_channel_by_id cid s of
             None \<Rightarrow> (-1, s)
           | Some ch \<Rightarrow>
               if queue_size (channels s ch) \<ge> max_queue_size (channels s ch)
               then (-1, bump_dropped ch s)
               else (case alloc_message_entry s of
                       (None, s1) \<Rightarrow> (-1, bump_dropped ch s1)
                     | (Some entry, s1) \<Rightarrow>
                         let s2 = s1\<lparr>entry_pool := (entry_pool s1)(entry :=
                                        \<lparr>e_message = msg, e_next = None,
                                         e_timestamp = mq_current_tick s1\<rparr>)\<rparr>;
                             s3 = enqueue_message ch entry s2
                         in (0, s3\<lparr>channels := (channels s3)(ch := (channels s3 ch)
                                     \<lparr>messages_sent := messages_sent (channels s3 ch) + 1\<rparr>)\<rparr>))))"

text \<open>\<open>mq_receive_message\<close>: the second component of the result is the caller's buffer
  after the call.\<close>

definition mq_receive_message ::
  "int \<Rightarrow> ipc_message option \<Rightarrow> mq_state \<Rightarrow> int \<times> ipc_message option \<times> mq_state" where
  "mq_receive_message cid msgp s =
     (case msgp of
        None \<Rightarrow> (-1, None, s)
      | Some buf \<Rightarrow>
          (case find_channel_by_id cid s of
             None \<Rightarrow> (-1, msgp, s)
           | Some ch \<Rightarrow>
               (case dequeue_message ch s of
                  (None, s1) \<Rightarrow> (-1, msgp, s1)
                | (Some entry, s1) \<Rightarrow>
                    let out = e_message (entry_pool s1 entry);
                        s2 = s1\<lparr>channels := (channels s1)(ch := (channels s1 ch)
                                  \<lparr>messages_received := messages_received (channels s1 ch) + 1\<rparr>)\<rparr>
                    in (0, Some out, free_message_entry (Some entry) s2))))"

definition mq_try_receive ::
  "int \<Rightarrow> ipc_message option \<Rightarrow> mq_state \<Rightarrow> int \<times> ipc_message option \<times> mq_state" where
  "mq_try_receive cid msgp s = mq_receive_message cid msgp s"

definition mq_set_blocking_mode :: "int \<Rightarrow> bool \<Rightarrow> mq_state \<Rightarrow> mq_state" where
  "mq_set_blocking_mode cid blocking s =
     (case find_channel_by_id cid s of
        None \<Rightarrow> s
      | Some ch \<Rightarrow> s\<lparr>channels := (channels s)(ch := (channels s ch)\<lparr>is_blocking := blocking\<rparr>)\<rparr>)"

definition mq_set_queue_size :: "int \<Rightarrow> u32 \<Rightarrow> mq_state \<Rightarrow> mq_state" where
  "mq_set_queue_size cid max_size s =
     (case find_channel_by_id cid s of
        None \<Rightarrow> s
      | Some ch \<Rightarrow>
          if max_size \<le> of_nat MAX_QUEUE_DEPTH
          then s\<lparr>channels := (channels s)(ch := (channels s ch)\<lparr>max_queue_size := max_size\<rparr>)\<rparr>
          else s)"

definition mq_tick :: "mq_state \<Rightarrow> mq_state" where
  "mq_tick s = s\<lparr>mq_current_tick := mq_current_tick s + 1\<rparr>"

definition zero_message :: ipc_message where
  "zero_message = \<lparr>sender_id = 0, receiver_id = 0, message_id = 0, msg_type = 0,
     msg_size = 0, msg_data = (\<lambda>_. 0), timestamp = 0, flags = 0\<rparr>"

text \<open>The zero-initialised static storage of the transport.\<close>

definition mq_boot_state :: mq_state where
  "mq_boot_state =
     \<lparr>channels = (\<lambda>_. \<lparr>channel_id = 0, ch_sender_id = 0, ch_receiver_id = 0,
                        queue_head = None, queue_tail = None, queue_size = 0,
                        max_queue_size = 0, is_blocking = False, ch_in_use = False,
                        messages_sent = 0, messages_received = 0, messages_dropped = 0\<rparr>),
      next_channel_id = 0, active_channels = 0, mq_current_tick = 0,
      mq_initialized = False,
      entry_pool = (\<lambda>_. \<lparr>e_message = zero_message, e_next = None, e_timestamp = 0\<rparr>),
      entry_used = (\<lambda>_. False), next_entry_index = 0\<rparr>"

text \<open>
  A session of the transport: a run of its state-changing operations from the initial
  storage. Beside the state, the run records for every channel slot the messages its
  sends accepted (returned 0) and the messages its receives delivered (returned 0), in
  call order, since the channel in that slot was created; a call is attributed to the
  slot that \<open>find_channel_by_id\<close> resolves its channel id to. \<open>None\<close> would mean
  that a call did not return.
\<close>

datatype mq_op =
    Mq_init
  | Mq_shutdown
  | Mq_create u32 u32
  | Mq_destroy int
  | Mq_send int ipc_message
  | Mq_receive int ipc_message
  | Mq_try_receive int ipc_message
  | Mq_tick
  | Mq_set_queue_size int u32
  | Mq_set_blocking_mode int bool

type_synonym mq_log = "nat \<Rightarrow> ipc_message list"

definition log_append :: "nat option \<Rightarrow> ipc_message option \<Rightarrow> mq_log \<Rightarrow> mq_log" where
  "log_append chp mp lg =
     (case (chp, mp) of (Some ch, Some m) \<Rightarrow> lg(ch := lg ch @ [m]) | _ \<Rightarrow> lg)"

definition creates_in :: "u32 \<Rightarrow> u32 \<Rightarrow> mq_state \<Rightarrow> nat option" where
  "creates_in a b s =
     (if find_channel_by_participants a b s = None \<and> find_free_channel s \<ge> 0
      then Some (nat (find_free_channel s)) else None)"

definition log_reset :: "nat option \<Rightarrow> mq_log \<Rightarrow> mq_log" where
  "log_reset chp lg = (case chp of Some ch \<Rightarrow> lg(ch := []) | None \<Rightarrow> lg)"

fun mq_step :: "mq_op \<Rightarrow> mq_state \<times> mq_log \<times> mq_log \<Rightarrow> (mq_state \<times> mq_log \<times> mq_log) option" where
  "mq_step Mq_init (s, sn, rc) = Some (snd (mq_init s), sn, rc)"
| "mq_step Mq_shutdown (s, sn, rc) =
     (case mq_shutdown s of None \<Rightarrow> None | Some s1 \<Rightarrow> Some (s1, sn, rc))"
| "mq_step (Mq_create a b) (s, sn, rc) =
     Some (snd (mq_create_channel a b s),
           log_reset (creates_in a b s) sn, log_reset (creates_in a b s) rc)"
| "mq_step (Mq_destroy c) (s, sn, rc) =
     (case mq_destroy_channel c s of None \<Rightarrow> None | Some s1 \<Rightarrow> Some (s1, sn, rc))"
| "mq_step (Mq_send c m) (s, sn, rc) =
     (case mq_send_message c (Some m) s of
        (r, s1) \<Rightarrow> Some (s1, if r = 0 then log_append (find_channel_by_id c s) (Some m) sn
                               else sn, rc))"
| "mq_step (Mq_receive c buf) (s, sn, rc) =
     (case mq_receive_message c (Some buf) s of
        (r, out, s1) \<Rightarrow> Some (s1, sn, if r = 0 then log_append (find_channel_by_id c s) out rc
                                        else rc))"
| "mq_step (Mq_try_receive c buf) (s, sn, rc) =
     (case mq_try_receive c (Some buf) s of
        (r, out, s1) \<Rightarrow> Some (s1, sn, if r = 0 then log_append (find_channel_by_id c s) out rc
                                        else rc))"
| "mq_step Mq_tick (s, sn, rc) = Some (mq_tick s, sn, rc)"
| "mq_step (Mq_set_queue_size c n) (s, sn, rc) = Some (mq_set_queue_size c n s, sn, rc)"
| "mq_step (Mq_set_blocking_mode c b) (s, sn, rc) = Some (mq_set_blocking_mode c b s, sn, rc)"

fun mq_run :: "mq_op list \<Rightarrow> mq_state \<times> mq_log \<times> mq_log \<Rightarrow> (mq_state \<times> mq_log \<times> mq_log) option" where
  "mq_run [] x = Some x"
| "mq_run (a # as) x = (case mq_step a x of None \<Rightarrow> None | Some y \<Rightarrow> mq_run as y)"

definition mq_start :: "mq_state \<times> mq_log \<times> mq_log" where
  "mq_start = (mq_boot_state, (\<lambda>_. []), (\<lambda>_. []))"

text \<open>The messages waiting in a channel, read off the chain from \<open>queue_head\<close>; a chain
  of pool entries that ends in null has at most POOL\_SIZE members.\<close>

fun chain_entries :: "nat \<Rightarrow> (nat \<Rightarrow> message_entry) \<Rightarrow> nat option \<Rightarrow> nat list" where
  "chain_entries 0 pool h = []"
| "chain_entries (Suc n) pool None = []"
| "chain_entries (Suc n) pool (Some e) = e # chain_entries n pool (e_next (pool e))"

definition queued_messages :: "mq_state \<Rightarrow> nat \<Rightarrow> ipc_message list" where
  "queued_messages s ch =
     map (\<lambda>e. e_message (entry_pool s e))
         (chain_entries POOL_SIZE (entry_pool s) (queue_head (channels s ch)))"

text \<open>The shape of the heap that the operations maintain: \<open>q ch\<close> lists the entries of
  channel \<open>ch\<close>'s queue from head to tail.\<close>

fun is_queue :: "(nat \<Rightarrow> message_entry) \<Rightarrow> nat option \<Rightarrow> nat list \<Rightarrow> bool" where
  "is_queue pool h [] = (h = None)"
| "is_queue pool h (e # es) = (h = Some e \<and> is_queue pool (e_next (pool e)) es)"

definition queue_ok :: "mq_state \<Rightarrow> nat \<Rightarrow> nat list \<Rightarrow> bool" where
  "queue_ok s ch es \<longleftrightarrow>
     is_queue (entry_pool s) (queue_head (channels s ch)) es \<and>
     queue_tail (channels s ch) = (if es = [] then None else Some (last es)) \<and>
     distinct es \<and> (\<forall>e \<in> set es. e < POOL_SIZE \<and> entry_used s e)"

definition logs_ok :: "mq_state \<Rightarrow> mq_log \<Rightarrow> mq_log \<Rightarrow> nat \<Rightarrow> nat list \<Rightarrow> bool" where
  "logs_ok s sn rc ch es \<longleftrightarrow>
     (if ch_in_use (channels s ch)
      then sn ch = rc ch @ map (\<lambda>e. e_message (entry_pool s e)) es
      else es = [] \<and> (\<exists>rest. sn ch = rc ch @ rest))"

definition heap_ok :: "mq_state \<Rightarrow> (nat \<Rightarrow> nat list) \<Rightarrow> bool" where
  "heap_ok s q \<longleftrightarrow>
     (\<forall>ch < MAX_CHANNELS. queue_ok s ch (q ch)) \<and>
     (\<forall>i < MAX_CHANNELS. \<forall>j < MAX_CHANNELS. i \<noteq> j \<longrightarrow> set (q i) \<inter> set (q j) = {})"

definition mq_inv :: "mq_state \<times> mq_log \<times> mq_log \<Rightarrow> (nat \<Rightarrow> nat list) \<Rightarrow> bool" where
  "mq_inv x q \<longleftrightarrow>
     (case x of (s, sn, rc) \<Rightarrow>
        heap_ok s q \<and>
        (\<forall>ch < MAX_CHANNELS. logs_ok s sn rc ch (q ch)) \<and>
        (\<forall>ch \<ge> MAX_CHANNELS. sn ch = [] \<and> rc ch = []))"

text \<open>A short session: one channel, two messages sent, one received.\<close>

definition msg_a :: ipc_message where "msg_a = zero_message\<lparr>message_id := 7\<rparr>"
definition msg_b :: ipc_message where "msg_b = zero_message\<lparr>message_id := 8\<rparr>"

definition demo_session :: "mq_op list" where
  "demo_session = [Mq_init, Mq_create 1 2, Mq_send 1 msg_a, Mq_send 1 msg_b,
                   Mq_receive 1 zero_message]"

section \<open>Priority scheduler: enrolment\<close>

text \<open>
  C10. \<open>priority_add_process\<close> never rejects a descriptor: a priority field above 31 is
  replaced by the default 15, and whatever the descriptor held before, on return its
  \<open>original_priority\<close> equals the resulting priority, \<open>age\<close> is 0, \<open>time_slice\<close> is
  10 + 2 * priority, \<open>remaining_slice\<close> equals \<open>time_slice\<close>, the running and blocked
  flags are clear and the process count has grown by one; this holds in every state.
  If the descriptor was not linked into a ready queue or the blocked list when it was
  passed in, it is then the last member of the ready queue of its resulting priority,
  behind the members that queue had before.
\<close>

theorem priority_add_process_normalises:
  "(let np = (if unat (priority (procs s p)) > 31 then 15 else priority (procs s p));
        s' = priority_add_process (Some p) s
    in priority (procs s' p) = np
     \<and> original_priority (procs s' p) = np
     \<and> age (procs s' p) = 0
     \<and> time_slice (procs s' p) = 10 + 2 * np
     \<and> remaining_slice (procs s' p) = 10 + 2 * np
     \<and> \<not> is_running (procs s' p)
     \<and> \<not> is_blocked (procs s' p)
     \<and> total_processes s' = total_processes s + 1
     \<and> unat np \<le> MAX_PRIORITY
     \<and> (not_linked p s \<longrightarrow> ready_queues s' (unat np) = ready_queues s (unat np) @ [p]))"
  by (simp add: priority_add_process_def Let_def enqueue_process_def
      calculate_time_slice_def MAX_PRIORITY_def DEFAULT_PRIORITY_def mult.commute)

text \<open>
  An instance: the descriptor at address 1 (priority 30) is added to a freshly
  initialised scheduler, where nothing is linked; afterwards queue 30 holds exactly that
  descriptor.
\<close>

theorem priority_add_process_normalises_witness:
  "not_linked 1 (priority_init blank_priority_state)
   \<and> priority (procs (priority_add_process (Some 1) (priority_init blank_priority_state)) 1) = 30
   \<and> time_slice (procs (priority_add_process (Some 1) (priority_init blank_priority_state)) 1) = 70
   \<and> ready_queues (priority_add_process (Some 1) (priority_init blank_priority_state)) 30 = [1]"
proof -
  have n: "not_linked 1 (priority_init blank_priority_state)"
    by (simp add: not_linked_def priority_init_def blank_priority_state_def)
  have p: "priority (procs (priority_init blank_priority_state) 1) = 30"
    by (simp add: priority_init_def blank_priority_state_def idle_descriptor_def)
  have q: "ready_queues (priority_init blank_priority_state) 30 = []"
    by (simp add: priority_init_def blank_priority_state_def)
  from priority_add_process_normalises[of "priority_init blank_priority_state" 1] n p q
  show ?thesis by (simp add: Let_def)
qed

section \<open>Priority scheduler: aging\<close>




lemma age_one_current [simp]: "current_process (age_one j q s) = current_process s"
  by (simp add: age_one_def Let_def enqueue_process_def remove_process_from_queue_def)

lemma age_one_tick [simp]: "current_tick (age_one j q s) = current_tick s"
  by (simp add: age_one_def Let_def enqueue_process_def remove_process_from_queue_def)


lemma fold_age_one_current [simp]: "current_process (fold (age_one j) xs s) = current_process s"
  by (induction xs arbitrary: s) auto

lemma fold_age_one_tick [simp]: "current_tick (fold (age_one j) xs s) = current_tick s"
  by (induction xs arbitrary: s) auto





lemma age_queue_current [simp]: "current_process (age_queue j s) = current_process s"
  by (simp add: age_queue_def)

lemma age_queue_tick [simp]: "current_tick (age_queue j s) = current_tick s"
  by (simp add: age_queue_def)


lemma fold_age_queue_current [simp]: "current_process (fold age_queue js s) = current_process s"
  by (induction js arbitrary: s) auto

lemma fold_age_queue_tick [simp]: "current_tick (fold age_queue js s) = current_tick s"
  by (induction js arbitrary: s) auto








lemma age_processes_current [simp]: "current_process (age_processes s) = current_process s"
  by (simp add: age_processes_def)

lemma age_processes_tick [simp]: "current_tick (age_processes s) = current_tick s"
  by (simp add: age_processes_def)

lemma fold_wait_fields:
  "procs (fold (\<lambda>q t. t\<lparr>total_wait_time := total_wait_time t + of_nat (length (ready_queues t q))\<rparr>) qs s) = procs s
 \<and> ready_queues (fold (\<lambda>q t. t\<lparr>total_wait_time := total_wait_time t + of_nat (length (ready_queues t q))\<rparr>) qs s) = ready_queues s
 \<and> current_process (fold (\<lambda>q t. t\<lparr>total_wait_time := total_wait_time t + of_nat (length (ready_queues t q))\<rparr>) qs s) = current_process s
 \<and> current_tick (fold (\<lambda>q t. t\<lparr>total_wait_time := total_wait_time t + of_nat (length (ready_queues t q))\<rparr>) qs s) = current_tick s"
  by (induction qs arbitrary: s) auto

lemma add_wait_times_fields [simp]:
  "procs (add_wait_times s) = procs s"
  "ready_queues (add_wait_times s) = ready_queues s"
  "current_process (add_wait_times s) = current_process s"
  "current_tick (add_wait_times s) = current_tick s"
  using fold_wait_fields[of "[MIN_PRIORITY..<Suc MAX_PRIORITY]" s]
  by (simp_all add: add_wait_times_def)

lemma sits_in_add_wait [simp]: "sits_in p k (add_wait_times s) = sits_in p k s"
  by (simp add: sits_in_def)

lemma sits_in_tick_upd [simp]: "sits_in p k (s\<lparr>current_tick := t\<rparr>) = sits_in p k s"
  by (simp add: sits_in_def)





















section \<open>Round-robin scheduler: blocking the running process\<close>

text \<open>
  C2, evaluated on the run init, add\_process(1), schedule, block(1): after
  \<open>schedule\<close> process 1 is the current process; \<open>rr_block\<close> of the current process
  clears \<open>current_process\<close> and reschedules without putting the process on the blocked
  list, so afterwards process 1 is neither current, nor in the ready queue, nor in the
  blocked list.
\<close>

theorem rr_block_current_loses_process:
  "map_option (rr_tracks 1) (rr_run [Init, Add_process 1, Schedule] rr_boot_state) = Some True
   \<and> map_option (rr_tracks 1) (rr_run [Init, Add_process 1, Schedule, Block 1] rr_boot_state)
       = Some False"
  by code_simp

section \<open>Buddy allocator: the state after initialisation\<close>

lemma walk_list_None: "walk_list n md None = []"
  by (cases n) simp_all

lemma walk_list_single: "0 < n \<Longrightarrow> b_next (md b) = None \<Longrightarrow> walk_list n md (Some b) = [b]"
  by (cases n) (simp_all add: walk_list_None)

lemma region64_heads:
  "map (free_lists region64) [0..<21] =
     [Some 63, Some 61, Some 57, Some 49, Some 33, Some 1, None, None, None, None, None,
      None, None, None, None, None, None, None, None, None, None]"
  by code_simp

lemma region64_links:
  "map (\<lambda>b. b_next (block_metadata region64 b)) [63, 61, 57, 49, 33, 1] =
     [None, None, None, None, None, None]"
  by code_simp

lemma region64_total: "total_pages region64 = 64"
  by code_simp

lemma region64_blocks:
  "map (free_list_blocks region64) [0..<21] =
     [[63], [61], [57], [49], [33], [1], [], [], [], [], [], [], [], [], [], [], [], [], [], [], []]"
  using region64_heads region64_links
  by (simp add: free_list_blocks_def region64_total upt_conv_Cons walk_list_None walk_list_single)

lemma region64_pages: "pages_on_free_lists region64 = 63"
  using region64_blocks
  by (simp add: pages_on_free_lists_def MAX_ORDER_def upt_conv_Cons)

text \<open>
  C3, evaluated after \<open>buddy_init\<close> on the 64-page region: the free lists hold 63
  pages, nothing is allocated and one page holds the block records, so the free lists
  do account for total minus metadata; but \<open>buddy_get_free_pages\<close> reports 64, the
  metadata page included.
\<close>

theorem buddy_free_count_includes_metadata:
  "pages_on_free_lists region64 = 63
   \<and> allocated_pages region64 = 0
   \<and> total_pages region64 - metadata_pages_of region64 = 63
   \<and> buddy_get_free_pages region64 + allocated_pages region64 = 64"
proof -
  have "allocated_pages region64 = 0" by code_simp
  moreover have "total_pages region64 - metadata_pages_of region64 = 63" by code_simp
  moreover have "buddy_get_free_pages region64 = 64" by code_simp
  ultimately show ?thesis using region64_pages by simp
qed

text \<open>
  C4, evaluated after \<open>buddy_init\<close> on the 64-page region: the carving loop starts at
  page 1, after the metadata page, and takes the largest block that fits without
  regard to alignment; free list 5 holds the block that starts at page index 1, and 1
  is not a multiple of 32. The blocks on lists 4 to 1 (pages 33, 49, 57 and 61) are
  misaligned in the same way.
\<close>

theorem buddy_init_misaligned_blocks:
  "map (free_list_blocks region64) [0..<6] = [[63], [61], [57], [49], [33], [1]]
   \<and> free_lists region64 5 = Some 1 \<and> \<not> (2 ^ 5 dvd (1::nat))"
proof -
  have "free_lists region64 5 = Some 1" by code_simp
  then show ?thesis using region64_blocks by (simp add: upt_conv_Cons)
qed

text \<open>
  What the misalignment leads to: the buddy of the block at page 61 is computed as
  page 60, which lies inside the free order-2 block at page 57. Three single-page
  requests return pages 63, 61 and 60, and a following four-page request returns the
  block at page 57, pages 57 to 60: page 60 is handed out twice.
\<close>

lemma buddy_page_handed_out_twice:
  "(let (a, s1) = buddy_alloc_pages 1 region64;
        (b, s2) = buddy_alloc_pages 1 s1;
        (c, s3) = buddy_alloc_pages 1 s2;
        (d, s4) = buddy_alloc_pages 4 s3
    in (a, b, c, d)) = (0x13F000, 0x13D000, 0x13C000, 0x139000)"
  by code_simp

section \<open>Shared-memory IPC: the rendezvous equation\<close>




























section \<open>Message-queue IPC: FIFO delivery\<close>

lemma is_queue_frame:
  "is_queue pool h es \<Longrightarrow> (\<And>e. e \<in> set es \<Longrightarrow> e_next (pool' e) = e_next (pool e)) \<Longrightarrow>
   is_queue pool' h es"
  by (induction es arbitrary: h) auto

lemma is_queue_append:
  "is_queue pool h es \<Longrightarrow> es \<noteq> [] \<Longrightarrow>
   (\<And>e. e \<in> set (butlast es) \<Longrightarrow> e_next (pool' e) = e_next (pool e)) \<Longrightarrow>
   e_next (pool' (last es)) = Some x \<Longrightarrow> e_next (pool' x) = None \<Longrightarrow>
   is_queue pool' h (es @ [x])"
proof (induction es arbitrary: h)
  case Nil
  then show ?case by simp
next
  case (Cons a es)
  show ?case
  proof (cases "es = []")
    case True
    with Cons.prems show ?thesis by simp
  next
    case False
    from Cons.prems(1) have h: "h = Some a" and t: "is_queue pool (e_next (pool a)) es" by auto
    from False have "a \<in> set (butlast (a # es))" by simp
    with Cons.prems(3) have n: "e_next (pool' a) = e_next (pool a)" by blast
    have "is_queue pool' (e_next (pool a)) (es @ [x])"
    proof (rule Cons.IH[OF t False])
      fix e assume "e \<in> set (butlast es)"
      then have "e \<in> set (butlast (a # es))" using False by simp
      then show "e_next (pool' e) = e_next (pool e)" by (rule Cons.prems(3))
    next
      show "e_next (pool' (last es)) = Some x" using Cons.prems(4) False by simp
    next
      show "e_next (pool' x) = None" by (rule Cons.prems(5))
    qed
    with h n show ?thesis by simp
  qed
qed

lemma is_queue_head_None: "is_queue pool None es \<longleftrightarrow> es = []"
  by (cases es) auto

lemma chain_entries_None: "chain_entries n pool None = []"
  by (cases n) simp_all

lemma chain_entries_is_queue:
  "is_queue pool h es \<Longrightarrow> length es \<le> n \<Longrightarrow> chain_entries n pool h = es"
proof (induction es arbitrary: h n)
  case Nil
  then show ?case by (simp add: chain_entries_None)
next
  case (Cons a es)
  then obtain m where m: "n = Suc m" by (cases n) auto
  from Cons.prems have "h = Some a" "is_queue pool (e_next (pool a)) es" "length es \<le> m"
    using m by auto
  with Cons.IH[of "e_next (pool a)" m] m show ?case by simp
qed

lemma distinct_bounded_length:
  assumes "distinct es" "\<forall>e \<in> set es. e < n"
  shows "length es \<le> n"
proof -
  have "set es \<subseteq> {..<n}" using assms(2) by auto
  then have "card (set es) \<le> card {..<n}" by (intro card_mono) simp_all
  with assms(1) show ?thesis by (simp add: distinct_card)
qed

lemma find_channel_by_id_Some:
  "find_channel_by_id c s = Some ch \<Longrightarrow> ch < MAX_CHANNELS \<and> ch_in_use (channels s ch)"
  by (auto simp: find_channel_by_id_def find_Some_iff)

lemma queue_ok_cong:
  assumes "entry_pool s' = entry_pool s" "entry_used s' = entry_used s"
    "queue_head (channels s' ch) = queue_head (channels s ch)"
    "queue_tail (channels s' ch) = queue_tail (channels s ch)"
  shows "queue_ok s' ch es = queue_ok s ch es"
  using assms by (simp add: queue_ok_def)

lemma logs_ok_cong:
  assumes "entry_pool s' = entry_pool s"
    "ch_in_use (channels s' ch) = ch_in_use (channels s ch)"
  shows "logs_ok s' sn rc ch es = logs_ok s sn rc ch es"
  using assms by (simp add: logs_ok_def)

lemma mq_inv_cong:
  assumes "entry_pool s' = entry_pool s" "entry_used s' = entry_used s"
    "\<And>ch. queue_head (channels s' ch) = queue_head (channels s ch)"
    "\<And>ch. queue_tail (channels s' ch) = queue_tail (channels s ch)"
    "\<And>ch. ch_in_use (channels s' ch) = ch_in_use (channels s ch)"
  shows "mq_inv (s', sn, rc) q = mq_inv (s, sn, rc) q"
  using assms by (simp add: mq_inv_def heap_ok_def queue_ok_cong[of s' s] logs_ok_cong[of s' s])

lemma mq_inv_tick: "mq_inv (mq_tick s, sn, rc) q = mq_inv (s, sn, rc) q"
  by (rule mq_inv_cong) (simp_all add: mq_tick_def)

lemma mq_inv_set_queue_size: "mq_inv (mq_set_queue_size c n s, sn, rc) q = mq_inv (s, sn, rc) q"
  by (rule mq_inv_cong) (simp_all add: mq_set_queue_size_def split: option.splits)

lemma mq_inv_set_blocking_mode:
  "mq_inv (mq_set_blocking_mode c b s, sn, rc) q = mq_inv (s, sn, rc) q"
  by (rule mq_inv_cong) (simp_all add: mq_set_blocking_mode_def split: option.splits)

lemma mq_inv_start: "mq_inv mq_start (\<lambda>_. [])"
  by (simp add: mq_inv_def heap_ok_def mq_start_def mq_boot_state_def queue_ok_def logs_ok_def)

lemma mq_inv_init:
  assumes "mq_inv (s, sn, rc) q"
  shows "\<exists>q'. mq_inv (snd (mq_init s), sn, rc) q'"
proof (cases "mq_initialized s")
  case True
  with assms show ?thesis by (auto simp: mq_init_def)
next
  case False
  have pre: "\<exists>rest. sn ch = rc ch @ rest" if "ch < MAX_CHANNELS" for ch
  proof -
    from assms that have "logs_ok s sn rc ch (q ch)" by (simp add: mq_inv_def)
    then show ?thesis by (auto simp: logs_ok_def split: if_splits)
  qed
  from assms have out: "\<forall>ch \<ge> MAX_CHANNELS. sn ch = [] \<and> rc ch = []"
    by (simp add: mq_inv_def)
  have "mq_inv (snd (mq_init s), sn, rc) (\<lambda>_. [])"
    using False pre out
    by (simp add: mq_inv_def heap_ok_def mq_init_def queue_ok_def logs_ok_def blank_channel_def)
  then show ?thesis by blast
qed


lemma find_free_channel_cases:
  obtains (none) "find_free_channel s = -1"
  | (slot) i where "find_free_channel s = int i" "i < MAX_CHANNELS" "\<not> ch_in_use (channels s i)"
proof (cases "find (\<lambda>i. \<not> ch_in_use (channels s i)) [0..<MAX_CHANNELS]")
  case None
  then have "find_free_channel s = -1" by (simp add: find_free_channel_def)
  then show ?thesis by (rule none)
next
  case (Some i)
  then have "find_free_channel s = int i" by (simp add: find_free_channel_def)
  moreover from Some have "i < MAX_CHANNELS" "\<not> ch_in_use (channels s i)"
    by (auto simp: find_Some_iff)
  ultimately show ?thesis by (rule slot)
qed

lemma mq_inv_create:
  assumes "mq_inv (s, sn, rc) q"
  shows "mq_inv (snd (mq_create_channel a b s),
                 log_reset (creates_in a b s) sn, log_reset (creates_in a b s) rc) q"
proof (cases "find_channel_by_participants a b s")
  case (Some e)
  then show ?thesis using assms
    by (simp add: mq_create_channel_def creates_in_def log_reset_def)
next
  case None
  show ?thesis
  proof (cases s rule: find_free_channel_cases)
    case none
    then show ?thesis using assms None
      by (simp add: mq_create_channel_def creates_in_def log_reset_def Let_def)
  next
    case (slot i)
    define s' where "s' = snd (mq_create_channel a b s)"
    have cr: "creates_in a b s = Some i" using None slot by (simp add: creates_in_def)
    have p: "entry_pool s' = entry_pool s" "entry_used s' = entry_used s"
      and o: "\<And>ch. ch \<noteq> i \<Longrightarrow> channels s' ch = channels s ch"
      and n: "queue_head (channels s' i) = None" "queue_tail (channels s' i) = None"
             "ch_in_use (channels s' i)"
      using None slot by (simp_all add: s'_def mq_create_channel_def Let_def)
    from assms slot have qi: "q i = []" by (auto simp: mq_inv_def logs_ok_def)
    have a: "queue_ok s' ch (q ch) \<and> logs_ok s' (sn(i := [])) (rc(i := [])) ch (q ch)"
      if "ch < MAX_CHANNELS" for ch
    proof (cases "ch = i")
      case True
      with qi n show ?thesis by (simp add: queue_ok_def logs_ok_def)
    next
      case False
      from assms that have "queue_ok s ch (q ch)" "logs_ok s sn rc ch (q ch)"
        by (simp_all add: mq_inv_def heap_ok_def)
      with False o[OF False] p show ?thesis by (simp add: queue_ok_def logs_ok_def)
    qed
    from assms slot(2) have b: "\<forall>ch \<ge> MAX_CHANNELS. (sn(i := [])) ch = [] \<and> (rc(i := [])) ch = []"
      by (auto simp: mq_inv_def)
    from assms have c: "\<forall>i < MAX_CHANNELS. \<forall>j < MAX_CHANNELS. i \<noteq> j \<longrightarrow> set (q i) \<inter> set (q j) = {}"
      by (simp add: mq_inv_def heap_ok_def)
    from a b c show ?thesis unfolding s'_def[symmetric] cr
      by (simp add: mq_inv_def heap_ok_def log_reset_def)
  qed
qed


text \<open>Removing the head entry of a channel's queue and releasing it.\<close>

lemma pop_heap:
  assumes h: "heap_ok s q" and ch: "ch < MAX_CHANNELS" and qc: "q ch = e # rest"
    and pool: "entry_pool s' = (entry_pool s)(e := (entry_pool s e)\<lparr>e_next := None\<rparr>)"
    and used: "entry_used s' = (entry_used s)(e := False)"
    and oth: "\<And>j. j \<noteq> ch \<Longrightarrow> channels s' j = channels s j"
    and hd: "queue_head (channels s' ch) = e_next (entry_pool s e)"
    and tl: "queue_tail (channels s' ch) = (if rest = [] then None else Some (last rest))"
  shows "heap_ok s' (q(ch := rest))"
proof -
  from h ch qc have qo: "queue_ok s ch (e # rest)" by (auto simp: heap_ok_def)
  then have iq: "is_queue (entry_pool s) (e_next (entry_pool s e)) rest"
    and d: "e \<notin> set rest" "distinct rest"
    and u: "\<forall>x \<in> set rest. x < POOL_SIZE \<and> entry_used s x"
    by (auto simp: queue_ok_def)
  have "is_queue (entry_pool s') (e_next (entry_pool s e)) rest"
    by (rule is_queue_frame[OF iq]) (use d pool in auto)
  with d u hd tl used have a: "queue_ok s' ch rest"
    by (auto simp: queue_ok_def)
  have b: "queue_ok s' j (q j)" if j: "j < MAX_CHANNELS" "j \<noteq> ch" for j
  proof -
    from h j have qj: "queue_ok s j (q j)" by (simp add: heap_ok_def)
    from h j ch qc have ne: "e \<notin> set (q j)" by (force simp: heap_ok_def)
    have "is_queue (entry_pool s') (queue_head (channels s j)) (q j)"
      by (rule is_queue_frame[where pool = "entry_pool s"]) (use qj ne pool in \<open>auto simp: queue_ok_def\<close>)
    with qj ne oth[OF j(2)] used show ?thesis by (auto simp: queue_ok_def)
  qed
  have c: "set ((q(ch := rest)) i) \<inter> set ((q(ch := rest)) j) = {}"
    if "i < MAX_CHANNELS" "j < MAX_CHANNELS" "i \<noteq> j" for i j
  proof -
    from h that have "set (q i) \<inter> set (q j) = {}" by (simp add: heap_ok_def)
    moreover have "set ((q(ch := rest)) i) \<subseteq> set (q i)" using qc by auto
    moreover have "set ((q(ch := rest)) j) \<subseteq> set (q j)" using qc by auto
    ultimately show ?thesis by blast
  qed
  from a b c show ?thesis by (auto simp: heap_ok_def)
qed

lemma dequeue_nonempty:
  assumes "queue_ok s ch (e # rest)"
  defines "s1 \<equiv> snd (dequeue_message ch s)"
  shows "fst (dequeue_message ch s) = Some e"
    and "entry_pool s1 = (entry_pool s)(e := (entry_pool s e)\<lparr>e_next := None\<rparr>)"
    and "entry_used s1 = entry_used s"
    and "\<And>j. j \<noteq> ch \<Longrightarrow> channels s1 j = channels s j"
    and "queue_head (channels s1 ch) = e_next (entry_pool s e)"
    and "queue_tail (channels s1 ch) = (if rest = [] then None else Some (last rest))"
    and "ch_in_use (channels s1 ch) = ch_in_use (channels s ch)"
proof -
  from assms(1) have hd: "queue_head (channels s ch) = Some e"
    and iq: "is_queue (entry_pool s) (e_next (entry_pool s e)) rest"
    and tl: "queue_tail (channels s ch) = Some (last (e # rest))"
    by (auto simp: queue_ok_def)
  from iq have em: "e_next (entry_pool s e) = None \<longleftrightarrow> rest = []" by (cases rest) auto
  show "fst (dequeue_message ch s) = Some e"
    using hd by (simp add: dequeue_message_def Let_def)
  show "entry_pool s1 = (entry_pool s)(e := (entry_pool s e)\<lparr>e_next := None\<rparr>)"
    using hd by (simp add: s1_def dequeue_message_def Let_def)
  show "entry_used s1 = entry_used s"
    using hd by (simp add: s1_def dequeue_message_def Let_def)
  show "\<And>j. j \<noteq> ch \<Longrightarrow> channels s1 j = channels s j"
    using hd by (simp add: s1_def dequeue_message_def Let_def)
  show "queue_head (channels s1 ch) = e_next (entry_pool s e)"
    using hd by (simp add: s1_def dequeue_message_def Let_def)
  show "queue_tail (channels s1 ch) = (if rest = [] then None else Some (last rest))"
    using hd tl em by (simp add: s1_def dequeue_message_def Let_def)
  show "ch_in_use (channels s1 ch) = ch_in_use (channels s ch)"
    using hd by (simp add: s1_def dequeue_message_def Let_def)
qed

lemma dequeue_empty:
  assumes "queue_ok s ch []"
  shows "dequeue_message ch s = (None, s)"
  using assms by (simp add: queue_ok_def dequeue_message_def)


lemma mq_inv_receive:
  assumes inv: "mq_inv (s, sn, rc) q"
  shows "case mq_receive_message c (Some buf) s of
           (r, out, s1) \<Rightarrow>
             \<exists>q'. mq_inv (s1, sn, if r = 0 then log_append (find_channel_by_id c s) out rc
                                  else rc) q'"
proof (cases "find_channel_by_id c s")
  case None
  with inv show ?thesis by (auto simp: mq_receive_message_def)
next
  case (Some ch)
  from find_channel_by_id_Some[OF Some] have ch: "ch < MAX_CHANNELS" "ch_in_use (channels s ch)"
    by auto
  from inv have h: "heap_ok s q" by (simp add: mq_inv_def)
  with ch have qo: "queue_ok s ch (q ch)" by (simp add: heap_ok_def)
  show ?thesis
  proof (cases "q ch")
    case Nil
    with qo have "dequeue_message ch s = (None, s)" by (simp add: dequeue_empty)
    with Some inv show ?thesis by (auto simp: mq_receive_message_def)
  next
    case (Cons e rest)
    with qo have qo': "queue_ok s ch (e # rest)" by simp
    then have el: "e < POOL_SIZE" by (simp add: queue_ok_def)
    define s1 where "s1 = snd (dequeue_message ch s)"
    note dq = dequeue_nonempty[OF qo', folded s1_def]
    define m where "m = e_message (entry_pool s e)"
    define s' where "s' = free_message_entry (Some e)
        (s1\<lparr>channels := (channels s1)(ch := (channels s1 ch)
              \<lparr>messages_received := messages_received (channels s1 ch) + 1\<rparr>)\<rparr>)"
    have dm: "dequeue_message ch s = (Some e, s1)"
      using dq(1) by (simp add: s1_def prod_eq_iff)
    have res: "mq_receive_message c (Some buf) s = (0, Some m, s')"
      using Some dm dq(2) by (simp add: mq_receive_message_def Let_def s'_def m_def)
    have pool: "entry_pool s' = (entry_pool s)(e := (entry_pool s e)\<lparr>e_next := None\<rparr>)"
      using dq(2) el by (simp add: s'_def free_message_entry_def)
    have used: "entry_used s' = (entry_used s)(e := False)"
      using dq(3) el by (simp add: s'_def free_message_entry_def)
    have oth: "\<And>j. j \<noteq> ch \<Longrightarrow> channels s' j = channels s j"
      using dq(4) el by (simp add: s'_def free_message_entry_def)
    have hd: "queue_head (channels s' ch) = e_next (entry_pool s e)"
      using dq(5) el by (simp add: s'_def free_message_entry_def)
    have tl: "queue_tail (channels s' ch) = (if rest = [] then None else Some (last rest))"
      using dq(6) el by (simp add: s'_def free_message_entry_def)
    have iu: "ch_in_use (channels s' ch)"
      using dq(7) ch(2) el by (simp add: s'_def free_message_entry_def)
    have msg: "\<And>x. e_message (entry_pool s' x) = e_message (entry_pool s x)"
      using pool by simp
    have h': "heap_ok s' (q(ch := rest))"
      by (rule pop_heap[OF h ch(1) Cons pool used oth hd tl])
    have l: "logs_ok s' sn (rc(ch := rc ch @ [m])) j ((q(ch := rest)) j)"
      if j: "j < MAX_CHANNELS" for j
    proof (cases "j = ch")
      case True
      from inv ch have "sn ch = rc ch @ map (\<lambda>x. e_message (entry_pool s x)) (q ch)"
        by (simp add: mq_inv_def logs_ok_def)
      with True iu Cons msg show ?thesis by (simp add: logs_ok_def m_def)
    next
      case False
      from inv j have "logs_ok s sn rc j (q j)" by (simp add: mq_inv_def)
      with False oth[OF False] msg show ?thesis by (simp add: logs_ok_def)
    qed
    from inv ch(1) have o: "\<forall>k \<ge> MAX_CHANNELS. sn k = [] \<and> (rc(ch := rc ch @ [m])) k = []"
      by (auto simp: mq_inv_def)
    from h' l o have "mq_inv (s', sn, rc(ch := rc ch @ [m])) (q(ch := rest))"
      by (simp add: mq_inv_def)
    then show ?thesis using res Some by (auto simp: log_append_def)
  qed
qed


lemma alloc_message_entry_cases:
  obtains (none) "alloc_message_entry s = (None, s)"
  | (some) x where
      "alloc_message_entry s =
         (Some x, s\<lparr>entry_used := (entry_used s)(x := True),
                     next_entry_index := (x + 1) mod POOL_SIZE\<rparr>)"
      "x < POOL_SIZE" "\<not> entry_used s x"
proof (cases "find (\<lambda>i. \<not> entry_used s ((next_entry_index s + i) mod POOL_SIZE)) [0..<POOL_SIZE]")
  case None
  then have "alloc_message_entry s = (None, s)" by (simp add: alloc_message_entry_def)
  then show ?thesis by (rule none)
next
  case (Some i)
  define x where "x = (next_entry_index s + i) mod POOL_SIZE"
  from Some have "alloc_message_entry s =
         (Some x, s\<lparr>entry_used := (entry_used s)(x := True),
                     next_entry_index := (x + 1) mod POOL_SIZE\<rparr>)"
    by (simp add: alloc_message_entry_def Let_def x_def)
  moreover have "x < POOL_SIZE" by (simp add: x_def POOL_SIZE_def MAX_CHANNELS_def MAX_QUEUE_DEPTH_def)
  moreover from Some have "\<not> entry_used s x" by (auto simp: find_Some_iff x_def)
  ultimately show ?thesis by (rule some)
qed

lemma distinct_butlast_last:
  assumes "distinct es" "y \<in> set (butlast es)"
  shows "y \<noteq> last es"
proof -
  from assms(2) have ne: "es \<noteq> []" by auto
  then have "es = butlast es @ [last es]" by simp
  with assms(1) have "distinct (butlast es @ [last es])" by simp
  with assms(2) show ?thesis by auto
qed

text \<open>Linking a fresh entry behind the tail of a channel's queue.\<close>

lemma push_heap:
  assumes h: "heap_ok s q" and ch: "ch < MAX_CHANNELS"
    and x: "x < POOL_SIZE" "\<not> entry_used s x"
    and nxt: "\<And>y. e_next (entry_pool s' y) =
                (if q ch \<noteq> [] \<and> y = last (q ch) then Some x
                 else if y = x then None else e_next (entry_pool s y))"
    and used: "entry_used s' = (entry_used s)(x := True)"
    and oth: "\<And>j. j \<noteq> ch \<Longrightarrow> channels s' j = channels s j"
    and hd: "queue_head (channels s' ch) =
               (if q ch = [] then Some x else queue_head (channels s ch))"
    and tl: "queue_tail (channels s' ch) = Some x"
  shows "heap_ok s' (q(ch := q ch @ [x]))"
proof -
  have fresh: "x \<notin> set (q j)" if "j < MAX_CHANNELS" for j
    using h that x(2) by (auto simp: heap_ok_def queue_ok_def)
  from h ch have qo: "queue_ok s ch (q ch)" by (simp add: heap_ok_def)
  then have iq: "is_queue (entry_pool s) (queue_head (channels s ch)) (q ch)"
    and d: "distinct (q ch)"
    and u: "\<forall>y \<in> set (q ch). y < POOL_SIZE \<and> entry_used s y"
    by (auto simp: queue_ok_def)
  have xl: "q ch \<noteq> [] \<Longrightarrow> x \<noteq> last (q ch)"
    using fresh[OF ch] last_in_set[of "q ch"] by auto
  have iq': "is_queue (entry_pool s') (queue_head (channels s' ch)) (q ch @ [x])"
  proof (cases "q ch = []")
    case True
    with hd nxt[of x] show ?thesis by simp
  next
    case False
    have "is_queue (entry_pool s') (queue_head (channels s ch)) (q ch @ [x])"
    proof (rule is_queue_append[OF iq False])
      fix y assume y: "y \<in> set (butlast (q ch))"
      then have "y \<noteq> last (q ch)" by (rule distinct_butlast_last[OF d])
      moreover from y have "y \<in> set (q ch)" by (rule in_set_butlastD)
      with fresh[OF ch] have "y \<noteq> x" by auto
      ultimately show "e_next (entry_pool s' y) = e_next (entry_pool s y)" by (simp add: nxt)
    next
      show "e_next (entry_pool s' (last (q ch))) = Some x" using False by (simp add: nxt)
    next
      show "e_next (entry_pool s' x) = None" using xl by (auto simp: nxt)
    qed
    with False hd show ?thesis by simp
  qed
  have a: "queue_ok s' ch (q ch @ [x])"
    using iq' tl d u fresh[OF ch] x(1) used by (auto simp: queue_ok_def)
  have b: "queue_ok s' j (q j)" if j: "j < MAX_CHANNELS" "j \<noteq> ch" for j
  proof -
    from h j have qj: "queue_ok s j (q j)" by (simp add: heap_ok_def)
    have same: "e_next (entry_pool s' y) = e_next (entry_pool s y)" if y: "y \<in> set (q j)" for y
    proof -
      from y fresh[OF j(1)] have "y \<noteq> x" by auto
      moreover have "q ch \<noteq> [] \<Longrightarrow> y \<noteq> last (q ch)"
      proof
        assume "q ch \<noteq> []" "y = last (q ch)"
        then have "y \<in> set (q ch)" by simp
        with y h j ch show False by (auto simp: heap_ok_def)
      qed
      ultimately show ?thesis by (auto simp: nxt)
    qed
    have "is_queue (entry_pool s') (queue_head (channels s j)) (q j)"
      by (rule is_queue_frame[where pool = "entry_pool s"]) (use qj same in \<open>auto simp: queue_ok_def\<close>)
    with qj oth[OF j(2)] used show ?thesis by (auto simp: queue_ok_def)
  qed
  have c: "set ((q(ch := q ch @ [x])) i) \<inter> set ((q(ch := q ch @ [x])) j) = {}"
    if ij: "i < MAX_CHANNELS" "j < MAX_CHANNELS" "i \<noteq> j" for i j
  proof -
    from h ij have "set (q i) \<inter> set (q j) = {}" by (simp add: heap_ok_def)
    with fresh[OF ij(1)] fresh[OF ij(2)] ij(3) show ?thesis by auto
  qed
  from a b c show ?thesis by (auto simp: heap_ok_def)
qed


lemma mq_inv_bump_dropped: "mq_inv (bump_dropped ch s, sn, rc) q = mq_inv (s, sn, rc) q"
  by (rule mq_inv_cong) (simp_all add: bump_dropped_def)

lemma mq_inv_send:
  assumes inv: "mq_inv (s, sn, rc) q"
  shows "case mq_send_message c (Some m) s of
           (r, s1) \<Rightarrow>
             \<exists>q'. mq_inv (s1, if r = 0 then log_append (find_channel_by_id c s) (Some m) sn
                               else sn, rc) q'"
proof (cases "find_channel_by_id c s")
  case None
  with inv show ?thesis by (auto simp: mq_send_message_def)
next
  case (Some ch)
  from find_channel_by_id_Some[OF Some] have ch: "ch < MAX_CHANNELS" "ch_in_use (channels s ch)"
    by auto
  from inv have h: "heap_ok s q" by (simp add: mq_inv_def)
  with ch have qo: "queue_ok s ch (q ch)" by (simp add: heap_ok_def)
  show ?thesis
  proof (cases "queue_size (channels s ch) \<ge> max_queue_size (channels s ch)")
    case True
    with Some inv show ?thesis by (auto simp: mq_send_message_def mq_inv_bump_dropped)
  next
    case False
    show ?thesis
    proof (cases s rule: alloc_message_entry_cases)
      case none
      with Some False inv show ?thesis by (auto simp: mq_send_message_def mq_inv_bump_dropped)
    next
      case (some x)
      define s' where "s' = snd (mq_send_message c (Some m) s)"
      have res: "mq_send_message c (Some m) s = (0, s')"
        using Some False some(1) by (simp add: s'_def mq_send_message_def Let_def)
      from qo have tl0: "queue_tail (channels s ch) = (if q ch = [] then None else Some (last (q ch)))"
        by (simp add: queue_ok_def)
      have xl: "q ch \<noteq> [] \<Longrightarrow> x \<noteq> last (q ch)"
        using qo some(3) last_in_set[of "q ch"] by (auto simp: queue_ok_def)
      have nxt: "e_next (entry_pool s' y) =
                (if q ch \<noteq> [] \<and> y = last (q ch) then Some x
                 else if y = x then None else e_next (entry_pool s y))" for y
        using Some False some(1) tl0 xl
        by (simp add: s'_def mq_send_message_def enqueue_message_def Let_def)
      have msg: "e_message (entry_pool s' y) = (if y = x then m else e_message (entry_pool s y))" for y
        using Some False some(1) tl0 xl
        by (simp add: s'_def mq_send_message_def enqueue_message_def Let_def)
      have used: "entry_used s' = (entry_used s)(x := True)"
        using Some False some(1) tl0
        by (simp add: s'_def mq_send_message_def enqueue_message_def Let_def)
      have oth: "\<And>j. j \<noteq> ch \<Longrightarrow> channels s' j = channels s j"
        using Some False some(1) tl0
        by (simp add: s'_def mq_send_message_def enqueue_message_def Let_def)
      have hd: "queue_head (channels s' ch) =
               (if q ch = [] then Some x else queue_head (channels s ch))"
        using Some False some(1) tl0
        by (simp add: s'_def mq_send_message_def enqueue_message_def Let_def)
      have tl: "queue_tail (channels s' ch) = Some x"
        using Some False some(1) tl0
        by (simp add: s'_def mq_send_message_def enqueue_message_def Let_def)
      have iu: "ch_in_use (channels s' ch)"
        using Some False some(1) tl0 ch(2)
        by (simp add: s'_def mq_send_message_def enqueue_message_def Let_def)
      have h': "heap_ok s' (q(ch := q ch @ [x]))"
        by (rule push_heap[OF h ch(1) some(2,3) nxt used oth hd tl])
      have fresh: "x \<notin> set (q j)" if "j < MAX_CHANNELS" for j
        using h that some(3) by (auto simp: heap_ok_def queue_ok_def)
      have l: "logs_ok s' (sn(ch := sn ch @ [m])) rc j ((q(ch := q ch @ [x])) j)"
        if j: "j < MAX_CHANNELS" for j
      proof (cases "j = ch")
        case True
        from inv ch have "sn ch = rc ch @ map (\<lambda>y. e_message (entry_pool s y)) (q ch)"
          by (simp add: mq_inv_def logs_ok_def)
        moreover have "map (\<lambda>y. e_message (entry_pool s' y)) (q ch)
            = map (\<lambda>y. e_message (entry_pool s y)) (q ch)"
          using fresh[OF ch(1)] by (auto simp: msg)
        ultimately show ?thesis using True iu by (simp add: logs_ok_def msg)
      next
        case False
        from inv j have lo: "logs_ok s sn rc j (q j)" by (simp add: mq_inv_def)
        have "map (\<lambda>y. e_message (entry_pool s' y)) (q j)
            = map (\<lambda>y. e_message (entry_pool s y)) (q j)"
          using fresh[OF j] by (auto simp: msg)
        with lo False oth[OF False] show ?thesis by (simp add: logs_ok_def)
      qed
      from inv ch(1) have o: "\<forall>k \<ge> MAX_CHANNELS. (sn(ch := sn ch @ [m])) k = [] \<and> rc k = []"
        by (auto simp: mq_inv_def)
      from h' l o have "mq_inv (s', sn(ch := sn ch @ [m]), rc) (q(ch := q ch @ [x]))"
        by (simp add: mq_inv_def)
      then show ?thesis using res Some by (auto simp: log_append_def)
    qed
  qed
qed


lemma heap_ok_cong:
  assumes "entry_pool s' = entry_pool s" "entry_used s' = entry_used s"
    "\<And>ch. queue_head (channels s' ch) = queue_head (channels s ch)"
    "\<And>ch. queue_tail (channels s' ch) = queue_tail (channels s ch)"
  shows "heap_ok s' q = heap_ok s q"
  using assms by (simp add: heap_ok_def queue_ok_cong[of s' s])

lemma drain_heap:
  "heap_ok s q \<Longrightarrow> ch < MAX_CHANNELS \<Longrightarrow> q ch = es \<Longrightarrow> length es \<le> fuel \<Longrightarrow>
   \<exists>s'. drain_queue fuel ch s = Some s' \<and> heap_ok s' (q(ch := [])) \<and>
        (\<forall>x. e_message (entry_pool s' x) = e_message (entry_pool s x)) \<and>
        (\<forall>j. j \<noteq> ch \<longrightarrow> channels s' j = channels s j) \<and>
        ch_in_use (channels s' ch) = ch_in_use (channels s ch)"
proof (induction es arbitrary: s q fuel)
  case Nil
  from Nil.prems have "queue_ok s ch []" by (auto simp: heap_ok_def)
  then have "queue_head (channels s ch) = None" by (simp add: queue_ok_def)
  then have "drain_queue fuel ch s = Some s" by (subst drain_queue.simps) simp
  moreover from Nil.prems(3) have "q(ch := []) = q" by auto
  ultimately show ?case using Nil.prems(1) by simp
next
  case (Cons e rest)
  from Cons.prems obtain f where f: "fuel = Suc f" "length rest \<le> f" by (cases fuel) auto
  from Cons.prems have qo: "queue_ok s ch (e # rest)" by (auto simp: heap_ok_def)
  then have el: "e < POOL_SIZE" and hd0: "queue_head (channels s ch) = Some e"
    by (simp_all add: queue_ok_def)
  define s1 where "s1 = snd (dequeue_message ch s)"
  note dq = dequeue_nonempty[OF qo, folded s1_def]
  have dm: "dequeue_message ch s = (Some e, s1)"
    using dq(1) by (simp add: s1_def prod_eq_iff)
  define s2 where "s2 = free_message_entry (Some e) s1"
  have step: "drain_queue fuel ch s = drain_queue f ch s2"
    using hd0 dm f(1) by (subst drain_queue.simps) (simp add: s2_def)
  have pool: "entry_pool s2 = (entry_pool s)(e := (entry_pool s e)\<lparr>e_next := None\<rparr>)"
    using dq(2) el by (simp add: s2_def free_message_entry_def)
  have used: "entry_used s2 = (entry_used s)(e := False)"
    using dq(3) el by (simp add: s2_def free_message_entry_def)
  have oth: "\<And>j. j \<noteq> ch \<Longrightarrow> channels s2 j = channels s j"
    using dq(4) el by (simp add: s2_def free_message_entry_def)
  have hd: "queue_head (channels s2 ch) = e_next (entry_pool s e)"
    using dq(5) el by (simp add: s2_def free_message_entry_def)
  have tl: "queue_tail (channels s2 ch) = (if rest = [] then None else Some (last rest))"
    using dq(6) el by (simp add: s2_def free_message_entry_def)
  have iu: "ch_in_use (channels s2 ch) = ch_in_use (channels s ch)"
    using dq(7) el by (simp add: s2_def free_message_entry_def)
  have h2: "heap_ok s2 (q(ch := rest))"
    by (rule pop_heap[OF Cons.prems(1,2,3) pool used oth hd tl])
  have "(q(ch := rest)) ch = rest" by simp
  from Cons.IH[OF h2 Cons.prems(2) this f(2)] obtain s' where
    s': "drain_queue f ch s2 = Some s'" "heap_ok s' ((q(ch := rest))(ch := []))"
      "\<forall>x. e_message (entry_pool s' x) = e_message (entry_pool s2 x)"
      "\<forall>j. j \<noteq> ch \<longrightarrow> channels s' j = channels s2 j"
      "ch_in_use (channels s' ch) = ch_in_use (channels s2 ch)" by blast
  from s'(3) pool have m: "\<forall>x. e_message (entry_pool s' x) = e_message (entry_pool s x)" by simp
  from s'(4) oth have o: "\<forall>j. j \<noteq> ch \<longrightarrow> channels s' j = channels s j" by simp
  from s'(2) have h': "heap_ok s' (q(ch := []))" by simp
  from step s'(1) have d: "drain_queue fuel ch s = Some s'" by simp
  from s'(5) iu have i: "ch_in_use (channels s' ch) = ch_in_use (channels s ch)" by simp
  from d h' m o i show ?case by blast
qed

lemma mq_inv_wipe:
  assumes inv: "mq_inv (s, sn, rc) q" and ch: "ch < MAX_CHANNELS"
  shows "\<exists>s'. drain_queue (Suc POOL_SIZE) ch s = Some s' \<and>
     mq_inv (s'\<lparr>channels := (channels s')(ch := (channels s' ch)\<lparr>ch_in_use := False\<rparr>)\<rparr>, sn, rc)
            (q(ch := []))"
proof -
  from inv have h: "heap_ok s q" by (simp add: mq_inv_def)
  with ch have qo: "queue_ok s ch (q ch)" by (simp add: heap_ok_def)
  then have "length (q ch) \<le> POOL_SIZE"
    by (intro distinct_bounded_length) (auto simp: queue_ok_def)
  then have len: "length (q ch) \<le> Suc POOL_SIZE" by simp
  from drain_heap[OF h ch refl len] obtain s' where
    s': "drain_queue (Suc POOL_SIZE) ch s = Some s'" "heap_ok s' (q(ch := []))"
      "\<forall>x. e_message (entry_pool s' x) = e_message (entry_pool s x)"
      "\<forall>j. j \<noteq> ch \<longrightarrow> channels s' j = channels s j" by blast
  define s1 where "s1 = s'\<lparr>channels := (channels s')(ch := (channels s' ch)\<lparr>ch_in_use := False\<rparr>)\<rparr>"
  have "heap_ok s1 (q(ch := [])) = heap_ok s' (q(ch := []))"
    by (rule heap_ok_cong) (simp_all add: s1_def)
  with s'(2) have h1: "heap_ok s1 (q(ch := []))" by simp
  have l: "logs_ok s1 sn rc j ((q(ch := [])) j)" if j: "j < MAX_CHANNELS" for j
  proof (cases "j = ch")
    case True
    from inv ch have "logs_ok s sn rc ch (q ch)" by (simp add: mq_inv_def)
    then have "\<exists>rest. sn ch = rc ch @ rest" by (auto simp: logs_ok_def split: if_splits)
    with True show ?thesis by (simp add: logs_ok_def s1_def)
  next
    case False
    from inv j have "logs_ok s sn rc j (q j)" by (simp add: mq_inv_def)
    moreover have "channels s1 j = channels s j" using False s'(4) by (simp add: s1_def)
    moreover have "\<forall>x. e_message (entry_pool s1 x) = e_message (entry_pool s x)"
      using s'(3) by (simp add: s1_def)
    ultimately show ?thesis using False by (simp add: logs_ok_def)
  qed
  from inv have o: "\<forall>k \<ge> MAX_CHANNELS. sn k = [] \<and> rc k = []" by (simp add: mq_inv_def)
  from h1 l o have "mq_inv (s1, sn, rc) (q(ch := []))" by (simp add: mq_inv_def)
  with s'(1) show ?thesis unfolding s1_def by blast
qed

lemma mq_inv_destroy:
  assumes inv: "mq_inv (s, sn, rc) q"
  shows "\<exists>s1 q'. mq_destroy_channel c s = Some s1 \<and> mq_inv (s1, sn, rc) q'"
proof (cases "find_channel_by_id c s")
  case None
  with inv show ?thesis by (auto simp: mq_destroy_channel_def)
next
  case (Some ch)
  from find_channel_by_id_Some[OF Some] have ch: "ch < MAX_CHANNELS" by simp
  from mq_inv_wipe[OF inv ch] obtain s' where
    s': "drain_queue (Suc POOL_SIZE) ch s = Some s'"
      "mq_inv (s'\<lparr>channels := (channels s')(ch := (channels s' ch)\<lparr>ch_in_use := False\<rparr>)\<rparr>, sn, rc)
              (q(ch := []))" by blast
  define s1 where "s1 = s'\<lparr>channels := (channels s')(ch := (channels s' ch)\<lparr>ch_in_use := False\<rparr>),
                        active_channels := active_channels s' - 1\<rparr>"
  have res: "mq_destroy_channel c s = Some s1"
    using Some s'(1) by (simp add: mq_destroy_channel_def s1_def)
  have "mq_inv (s1, sn, rc) (q(ch := [])) =
        mq_inv (s'\<lparr>channels := (channels s')(ch := (channels s' ch)\<lparr>ch_in_use := False\<rparr>)\<rparr>, sn, rc)
               (q(ch := []))"
    by (rule mq_inv_cong) (simp_all add: s1_def)
  with s'(2) res show ?thesis by blast
qed

lemma mq_inv_shutdown_channels:
  "mq_inv (s, sn, rc) q \<Longrightarrow> \<forall>i \<in> set xs. i < MAX_CHANNELS \<Longrightarrow>
   \<exists>s' q'. shutdown_channels xs s = Some s' \<and> mq_inv (s', sn, rc) q'"
proof (induction xs arbitrary: s q)
  case Nil
  then show ?case by auto
next
  case (Cons i xs)
  from Cons.prems(2) have i: "i < MAX_CHANNELS" by simp
  from mq_inv_wipe[OF Cons.prems(1) i] obtain s' where
    s': "drain_queue (Suc POOL_SIZE) i s = Some s'"
      "mq_inv (s'\<lparr>channels := (channels s')(i := (channels s' i)\<lparr>ch_in_use := False\<rparr>)\<rparr>, sn, rc)
              (q(i := []))" by blast
  from Cons.prems(2) have "\<forall>j \<in> set xs. j < MAX_CHANNELS" by simp
  from Cons.IH[OF s'(2) this] s'(1) show ?case by simp
qed

lemma mq_inv_shutdown:
  assumes inv: "mq_inv (s, sn, rc) q"
  shows "\<exists>s1 q'. mq_shutdown s = Some s1 \<and> mq_inv (s1, sn, rc) q'"
proof -
  have "\<forall>i \<in> set [0..<MAX_CHANNELS]. i < MAX_CHANNELS" by simp
  from mq_inv_shutdown_channels[OF inv this] obtain s' q' where
    s': "shutdown_channels [0..<MAX_CHANNELS] s = Some s'" "mq_inv (s', sn, rc) q'" by blast
  have "mq_inv (s'\<lparr>active_channels := 0, mq_initialized := False\<rparr>, sn, rc) q' =
        mq_inv (s', sn, rc) q'"
    by (rule mq_inv_cong) simp_all
  with s' show ?thesis by (auto simp: mq_shutdown_def)
qed

lemma mq_step_inv:
  assumes "mq_inv x q"
  shows "\<exists>y q'. mq_step a x = Some y \<and> mq_inv y q'"
proof -
  obtain s sn rc where x: "x = (s, sn, rc)" by (cases x) auto
  note inv = assms[unfolded x]
  show ?thesis
  proof (cases a)
    case Mq_init
    from mq_inv_init[OF inv] show ?thesis by (auto simp: x Mq_init)
  next
    case Mq_shutdown
    from mq_inv_shutdown[OF inv] show ?thesis by (auto simp: x Mq_shutdown)
  next
    case (Mq_create u v)
    from mq_inv_create[OF inv, of u v] show ?thesis by (auto simp: x Mq_create)
  next
    case (Mq_destroy c)
    from mq_inv_destroy[OF inv, of c] show ?thesis by (auto simp: x Mq_destroy)
  next
    case (Mq_send c m)
    from mq_inv_send[OF inv, of c m] show ?thesis
      by (auto simp: x Mq_send split: prod.splits)
  next
    case (Mq_receive c buf)
    from mq_inv_receive[OF inv, of c buf] show ?thesis
      by (auto simp: x Mq_receive split: prod.splits)
  next
    case (Mq_try_receive c buf)
    from mq_inv_receive[OF inv, of c buf] show ?thesis
      by (auto simp: x Mq_try_receive mq_try_receive_def split: prod.splits)
  next
    case Mq_tick
    from inv show ?thesis by (auto simp: x Mq_tick mq_inv_tick)
  next
    case (Mq_set_queue_size c n)
    from inv show ?thesis by (auto simp: x Mq_set_queue_size mq_inv_set_queue_size)
  next
    case (Mq_set_blocking_mode c b)
    from inv show ?thesis by (auto simp: x Mq_set_blocking_mode mq_inv_set_blocking_mode)
  qed
qed

lemma mq_run_inv: "mq_inv x q \<Longrightarrow> \<exists>y q'. mq_run ops x = Some y \<and> mq_inv y q'"
proof (induction ops arbitrary: x q)
  case Nil
  then show ?case by auto
next
  case (Cons a ops)
  from mq_step_inv[OF Cons.prems, of a] obtain y q1
    where y: "mq_step a x = Some y" "mq_inv y q1" by blast
  from Cons.IH[OF y(2)] y(1) show ?case by simp
qed

lemma mq_inv_fifo:
  assumes "mq_inv (s, sn, rc) q"
  shows "(\<forall>k < length (rc ch). k < length (sn ch) \<and> rc ch ! k = sn ch ! k)"
    and "ch < MAX_CHANNELS \<Longrightarrow> ch_in_use (channels s ch) \<Longrightarrow>
         sn ch = rc ch @ queued_messages s ch"
proof -
  have pre: "\<exists>rest. sn ch = rc ch @ rest"
  proof (cases "ch < MAX_CHANNELS")
    case True
    with assms have "logs_ok s sn rc ch (q ch)" by (simp add: mq_inv_def)
    then show ?thesis by (auto simp: logs_ok_def split: if_splits)
  next
    case False
    with assms show ?thesis by (simp add: mq_inv_def)
  qed
  then obtain rest where r: "sn ch = rc ch @ rest" by blast
  show "\<forall>k < length (rc ch). k < length (sn ch) \<and> rc ch ! k = sn ch ! k"
    by (simp add: r nth_append)
  show "sn ch = rc ch @ queued_messages s ch"
    if ch: "ch < MAX_CHANNELS" "ch_in_use (channels s ch)"
  proof -
    from assms ch have qo: "queue_ok s ch (q ch)"
      and lo: "sn ch = rc ch @ map (\<lambda>x. e_message (entry_pool s x)) (q ch)"
      by (simp_all add: mq_inv_def heap_ok_def logs_ok_def)
    from qo have "length (q ch) \<le> POOL_SIZE"
      by (intro distinct_bounded_length) (auto simp: queue_ok_def)
    with qo have "chain_entries POOL_SIZE (entry_pool s) (queue_head (channels s ch)) = q ch"
      by (intro chain_entries_is_queue) (simp_all add: queue_ok_def)
    with lo show ?thesis by (simp add: queued_messages_def)
  qed
qed

text \<open>
  C6. In every session of the message-queue transport (any run of init, shutdown,
  create\_channel, destroy\_channel, send\_message, receive\_message, try\_receive, tick
  and the two setters from the initial storage) every call returns, and for every
  channel the k-th message delivered by a successful receive is the k-th message
  accepted by a successful send, for every k up to the number of receives; while the
  channel is in use, the accepted messages are exactly the delivered ones followed by
  the ones waiting in the queue, in order: none is reordered or lost. (Messages still
  waiting when their channel is destroyed or the transport is shut down are discarded
  with the channel; the record of a slot starts afresh when a channel is created in it.)
\<close>

theorem mq_fifo:
  "\<exists>s sn rc. mq_run ops mq_start = Some (s, sn, rc) \<and>
      (\<forall>ch. (\<forall>k < length (rc ch). k < length (sn ch) \<and> rc ch ! k = sn ch ! k) \<and>
            (ch < MAX_CHANNELS \<and> ch_in_use (channels s ch)
               \<longrightarrow> sn ch = rc ch @ queued_messages s ch))"
proof -
  from mq_run_inv[OF mq_inv_start, of ops] obtain y q
    where y: "mq_run ops mq_start = Some y" "mq_inv y q" by blast
  obtain s sn rc where e: "y = (s, sn, rc)" by (cases y) auto
  from mq_inv_fifo[OF y(2)[unfolded e]] y(1) e show ?thesis by blast
qed

text \<open>
  An instance: after init, create\_channel(1, 2), two sends and one receive on channel
  1, the receive has delivered the first message and the second is the one waiting.
\<close>

lemma find_upt_first: "0 < n \<Longrightarrow> P 0 \<Longrightarrow> find P [0..<n] = Some 0"
  by (simp add: upt_conv_Cons)

lemma alloc_first_free:
  assumes "next_entry_index s < POOL_SIZE" "\<not> entry_used s (next_entry_index s)"
  shows "alloc_message_entry s =
     (Some (next_entry_index s),
      s\<lparr>entry_used := (entry_used s)(next_entry_index s := True),
        next_entry_index := (next_entry_index s + 1) mod POOL_SIZE\<rparr>)"
proof -
  have "find (\<lambda>i. \<not> entry_used s ((next_entry_index s + i) mod POOL_SIZE)) [0..<POOL_SIZE] = Some 0"
    using assms by (intro find_upt_first) simp_all
  then show ?thesis using assms by (simp add: alloc_message_entry_def Let_def)
qed

lemma find_channel_by_id_first:
  "ch_in_use (channels s 0) \<Longrightarrow> channel_id (channels s 0) = word_of_int c \<Longrightarrow>
   find_channel_by_id c s = Some 0"
  unfolding find_channel_by_id_def by (intro find_upt_first) (simp_all add: MAX_CHANNELS_def)

lemma find_free_channel_first:
  "\<not> ch_in_use (channels s 0) \<Longrightarrow> find_free_channel s = 0"
proof -
  assume a: "\<not> ch_in_use (channels s 0)"
  have "find (\<lambda>i. \<not> ch_in_use (channels s i)) [0..<MAX_CHANNELS] = Some 0"
    using a by (intro find_upt_first) (simp_all add: MAX_CHANNELS_def)
  then show ?thesis by (simp add: find_free_channel_def)
qed

lemma find_channel_by_participants_none:
  "\<forall>i. \<not> ch_in_use (channels s i) \<Longrightarrow> find_channel_by_participants a b s = None"
  by (simp add: find_channel_by_participants_def find_None_iff)

lemma sixteen_not_le_one: "\<not> (16::u32) \<le> 1"
  by (simp add: word_le_nat_alt)

lemmas mq_eval = sixteen_not_le_one
  mq_start_def mq_boot_state_def mq_init_def mq_create_channel_def
  mq_send_message_def mq_receive_message_def find_channel_by_participants_none
  find_free_channel_first find_channel_by_id_first alloc_first_free free_message_entry_def
  enqueue_message_def dequeue_message_def blank_channel_def creates_in_def log_reset_def
  log_append_def MAX_CHANNELS_def MAX_QUEUE_DEPTH_def POOL_SIZE_def Let_def

lemma demo_session_outcome:
  "case mq_run demo_session mq_start of
     None \<Rightarrow> False
   | Some (s, sn, rc) \<Rightarrow>
       ch_in_use (channels s 0) \<and> sn 0 = [msg_a, msg_b] \<and> rc 0 = [msg_a]"
  by (simp add: demo_session_def mq_eval)

theorem mq_fifo_witness:
  "\<exists>s sn rc. mq_run demo_session mq_start = Some (s, sn, rc)
      \<and> 0 < MAX_CHANNELS \<and> ch_in_use (channels s 0)
      \<and> sn 0 = [msg_a, msg_b] \<and> rc 0 = [msg_a]
      \<and> 0 < length (rc 0) \<and> rc 0 ! 0 = sn 0 ! 0
      \<and> queued_messages s 0 = [msg_b]"
proof -
  from mq_fifo[of demo_session] obtain s sn rc where
    r: "mq_run demo_session mq_start = Some (s, sn, rc)"
    and f: "0 < MAX_CHANNELS \<and> ch_in_use (channels s 0) \<longrightarrow> sn 0 = rc 0 @ queued_messages s 0"
    by blast
  from demo_session_outcome r
  have o: "ch_in_use (channels s 0)" "sn 0 = [msg_a, msg_b]" "rc 0 = [msg_a]" by simp_all
  have m: "0 < MAX_CHANNELS" by (simp add: MAX_CHANNELS_def)
  from f m o have "queued_messages s 0 = [msg_b]" by simp
  with r m o show ?thesis by simp
qed

section \<open>Buddy allocator: aligned allocation\<close>

lemma order_loop_spec:
  "bp = 2 ^ ord \<Longrightarrow> ord \<le> 21 \<Longrightarrow> (ord = 0 \<or> 2 ^ (ord - 1) < p) \<Longrightarrow>
   ord \<le> order_loop ord bp p \<and> order_loop ord bp p \<le> 21 \<and>
   (order_loop ord bp p \<le> 20 \<longrightarrow> p \<le> 2 ^ order_loop ord bp p) \<and>
   (order_loop ord bp p = 0 \<or> 2 ^ (order_loop ord bp p - 1) < p)"
proof (induction ord bp p rule: order_loop.induct)
  case (1 ord bp p)
  show ?case
  proof (cases "bp < p \<and> ord \<le> MAX_ORDER")
    case True
    then have e: "order_loop ord bp p = order_loop (ord + 1) (2 * bp) p"
      by (subst order_loop.simps) simp
    have a: "2 * bp = 2 ^ (ord + 1)" using 1(2) by simp
    have b: "ord + 1 \<le> 21" using True by (simp add: MAX_ORDER_def)
    have c: "ord + 1 = 0 \<or> 2 ^ (ord + 1 - 1) < p" using True 1(2) by simp
    from 1(1)[OF True a b c] show ?thesis unfolding e by auto
  next
    case False
    then have e: "order_loop ord bp p = ord" by (subst order_loop.simps) auto
    from False have "p \<le> bp \<or> ord = 21" using 1(3) by (auto simp: MAX_ORDER_def)
    with 1(2-4) show ?thesis unfolding e by auto
  qed
qed

lemma get_order_for_pages_fail:
  assumes "2 ^ 20 < unat pages"
  shows "get_order_for_pages pages = 0xFF"
proof -
  define r where "r = order_loop 0 (Suc 0) (unat pages)"
  from order_loop_spec[of "Suc 0" 0 "unat pages"]
  have s: "r \<le> 21" "r \<le> 20 \<longrightarrow> unat pages \<le> 2 ^ r" by (auto simp: r_def)
  have "\<not> r \<le> 20"
  proof
    assume le: "r \<le> 20"
    with s have "unat pages \<le> 2 ^ r" by simp
    also have "(2::nat) ^ r \<le> 2 ^ 20" using le by (intro power_increasing) simp_all
    finally show False using assms by simp
  qed
  then show ?thesis by (simp add: get_order_for_pages_def r_def[symmetric] MAX_ORDER_def)
qed

lemma get_order_for_pages_least:
  assumes "unat pages \<le> 2 ^ 20"
  shows "get_order_for_pages pages \<le> 20 \<and> unat pages \<le> 2 ^ get_order_for_pages pages \<and>
         (\<forall>k < get_order_for_pages pages. 2 ^ k < unat pages)"
proof -
  define r where "r = order_loop 0 (Suc 0) (unat pages)"
  from order_loop_spec[of "Suc 0" 0 "unat pages"]
  have s: "r \<le> 21" "r \<le> 20 \<longrightarrow> unat pages \<le> 2 ^ r" "r = 0 \<or> 2 ^ (r - 1) < unat pages"
    by (auto simp: r_def)
  have le: "r \<le> 20"
  proof (rule ccontr)
    assume "\<not> r \<le> 20"
    with s(1) have "r = 21" by simp
    with s(3) assms show False by simp
  qed
  then have g: "get_order_for_pages pages = r"
    by (simp add: get_order_for_pages_def r_def[symmetric] MAX_ORDER_def)
  have "2 ^ k < unat pages" if "k < r" for k
  proof -
    from that s(3) have lt: "2 ^ (r - 1) < unat pages" by auto
    from that have "k \<le> r - 1" by simp
    then have "(2::nat) ^ k \<le> 2 ^ (r - 1)" by (intro power_increasing) simp_all
    then show ?thesis using lt by (rule le_less_trans)
  qed
  with le s(2) show ?thesis unfolding g by simp
qed

lemma unat_BLOCK_SIZE:
  assumes "k \<le> 20"
  shows "unat (BLOCK_SIZE k) = 2 ^ k"
proof -
  have "(2::nat) ^ k \<le> 2 ^ 20" using assms by (intro power_increasing) simp_all
  then have lt: "(2::nat) ^ k < 4294967296" by simp
  have "BLOCK_SIZE k = of_nat (2 ^ k)" by (simp add: BLOCK_SIZE_def push_bit_eq_mult)
  then have "unat (BLOCK_SIZE k) = 2 ^ k mod 4294967296" by (simp only: unat_of_nat) simp
  with lt show ?thesis by simp
qed

lemma get_order_for_pages_BLOCK_SIZE:
  assumes "k \<le> 20"
  shows "get_order_for_pages (BLOCK_SIZE k) = k"
proof -
  have u: "unat (BLOCK_SIZE k) = 2 ^ k" by (rule unat_BLOCK_SIZE[OF assms])
  have "(2::nat) ^ k \<le> 2 ^ 20" using assms by (intro power_increasing) simp_all
  with u have "unat (BLOCK_SIZE k) \<le> 2 ^ 20" by simp
  note l = get_order_for_pages_least[OF this]
  define r where "r = get_order_for_pages (BLOCK_SIZE k)"
  from l u have a: "(2::nat) ^ k \<le> 2 ^ r" and b: "\<forall>j < r. (2::nat) ^ j < 2 ^ k"
    by (auto simp: r_def)
  from a have "k \<le> r" by simp
  moreover have "\<not> k < r" using b by auto
  ultimately show ?thesis by (simp add: r_def)
qed

lemma unat_SIZE_TO_PAGES:
  "unat (SIZE_TO_PAGES sz) = ((unat sz + 4095) mod 2 ^ 32) div 4096"
proof -
  have "SIZE_TO_PAGES sz = (sz + 4095) div 4096"
    by (simp add: SIZE_TO_PAGES_def PAGE_SIZE_def add.commute)
  then have "unat (SIZE_TO_PAGES sz) = unat (sz + 4095) div 4096"
    by (simp only: unat_div) simp
  moreover have "unat (sz + 4095) = (unat sz + 4095) mod 2 ^ 32"
    by (simp add: unat_word_ariths)
  ultimately show ?thesis by simp
qed

lemma SIZE_TO_PAGES_bound: "unat (SIZE_TO_PAGES sz) < 2 ^ 20"
proof -
  have "(unat sz + 4095) mod 2 ^ 32 < (2::nat) ^ 32" by simp
  then have "((unat sz + 4095) mod 2 ^ 32) div 4096 < (2::nat) ^ 20" by simp
  then show ?thesis by (simp only: unat_SIZE_TO_PAGES)
qed

text \<open>
  C7 (as amended). \<open>buddy_alloc_aligned(size, alignment)\<close> never consults
  \<open>alignment\<close>: its result is the same for every alignment argument. The page count
  it works with is computed in 32 bits, \<open>((size + 4095) mod 2^32) div 4096\<close>: this is
  the number of pages that hold \<open>size\<close> bytes for \<open>size\<close> up to 0xFFFFF000 and wraps
  to 0 above. That count is below 2^20, so the order search never fails: the call
  returns what \<open>buddy_alloc_pages\<close> returns for a block of the smallest order \<open>k\<close>, at
  most MAX\_ORDER, with at least that many pages.
\<close>

theorem buddy_alloc_aligned_by_size_only:
  "buddy_alloc_aligned sz alignment s = buddy_alloc_aligned sz alignment' s
   \<and> unat (SIZE_TO_PAGES sz) = ((unat sz + 4095) mod 2 ^ 32) div 4096
   \<and> (unat sz \<le> 0xFFFFF000 \<longrightarrow> unat (SIZE_TO_PAGES sz) = (unat sz + 4095) div 4096)
   \<and> (0xFFFFF000 < unat sz \<longrightarrow> SIZE_TO_PAGES sz = 0)
   \<and> (\<exists>k \<le> 20. unat (SIZE_TO_PAGES sz) \<le> 2 ^ k
               \<and> (\<forall>j < k. 2 ^ j < unat (SIZE_TO_PAGES sz))
               \<and> get_order_for_pages (BLOCK_SIZE k) = k
               \<and> buddy_alloc_aligned sz alignment s = buddy_alloc_pages (BLOCK_SIZE k) s)"
proof -
  have le: "unat (SIZE_TO_PAGES sz) \<le> 2 ^ 20"
    using SIZE_TO_PAGES_bound[of sz] by simp
  define k where "k = get_order_for_pages (SIZE_TO_PAGES sz)"
  note l = get_order_for_pages_least[OF le, folded k_def]
  then have k20: "k \<le> 20" by simp
  then have ne: "k \<noteq> 0xFF" by simp
  have a: "buddy_alloc_aligned sz alignment s = buddy_alloc_pages (BLOCK_SIZE k) s"
    using ne by (simp add: buddy_alloc_aligned_def Let_def k_def[symmetric])
  have b: "buddy_alloc_aligned sz alignment s = buddy_alloc_aligned sz alignment' s"
    by (simp add: buddy_alloc_aligned_def)
  have lt: "unat sz < 2 ^ 32" using unsigned_less[of sz, where 'a=nat] by simp
  have c: "unat (SIZE_TO_PAGES sz) = (unat sz + 4095) div 4096" if "unat sz \<le> 0xFFFFF000"
  proof -
    from that have "unat sz + 4095 < 2 ^ 32" by simp
    then have "(unat sz + 4095) mod 2 ^ 32 = unat sz + 4095" by (rule mod_less)
    then show ?thesis by (simp only: unat_SIZE_TO_PAGES)
  qed
  have d: "SIZE_TO_PAGES sz = 0" if "0xFFFFF000 < unat sz"
  proof -
    define m where "m = unat sz + 4095 - 2 ^ 32"
    from that lt have m: "unat sz + 4095 = m + 2 ^ 32" "m < 4095" by (simp_all add: m_def)
    then have "(unat sz + 4095) mod 2 ^ 32 = m" by simp
    then have "unat (SIZE_TO_PAGES sz) = m div 4096" by (simp only: unat_SIZE_TO_PAGES)
    with m(2) have "unat (SIZE_TO_PAGES sz) = 0" by simp
    then show ?thesis by (simp add: unat_eq_0)
  qed
  from l get_order_for_pages_BLOCK_SIZE[OF k20] a k20
  have e: "\<exists>k \<le> 20. unat (SIZE_TO_PAGES sz) \<le> 2 ^ k
               \<and> (\<forall>j < k. 2 ^ j < unat (SIZE_TO_PAGES sz))
               \<and> get_order_for_pages (BLOCK_SIZE k) = k
               \<and> buddy_alloc_aligned sz alignment s = buddy_alloc_pages (BLOCK_SIZE k) s"
    by blast
  from b c d e unat_SIZE_TO_PAGES[of sz] show ?thesis by blast
qed

text \<open>
  Two instances on the freshly initialised 64-page region: a request of 4096 bytes
  (one page, whatever the alignment asked for), and a request of 0xFFFFFFFF bytes,
  whose page count wraps to 0 and which is therefore served as an order-0 request.
\<close>

theorem buddy_alloc_aligned_by_size_only_witness:
  "buddy_alloc_aligned 4096 8192 region64 = buddy_alloc_aligned 4096 4096 region64
   \<and> unat (4096 :: u32) \<le> 0xFFFFF000
   \<and> unat (SIZE_TO_PAGES 4096) = 1
   \<and> (\<exists>k \<le> 20. unat (SIZE_TO_PAGES 4096) \<le> 2 ^ k
                  \<and> (\<forall>j < k. 2 ^ j < unat (SIZE_TO_PAGES 4096))
                  \<and> get_order_for_pages (BLOCK_SIZE k) = k
                  \<and> buddy_alloc_aligned 4096 8192 region64 = buddy_alloc_pages (BLOCK_SIZE k) region64)
   \<and> 0xFFFFF000 < unat (0xFFFFFFFF :: u32)
   \<and> SIZE_TO_PAGES 0xFFFFFFFF = 0"
proof -
  have n: "unat (4096 :: u32) \<le> 0xFFFFF000" by simp
  have m: "0xFFFFF000 < unat (0xFFFFFFFF :: u32)" by simp
  note t = buddy_alloc_aligned_by_size_only[of 4096 8192 region64 4096]
  note u = buddy_alloc_aligned_by_size_only[of "0xFFFFFFFF" 0 region64 0]
  from t n have p: "unat (SIZE_TO_PAGES 4096) = 1" by simp
  from u m have z: "SIZE_TO_PAGES 0xFFFFFFFF = 0" by blast
  from t n m p z show ?thesis by blast
qed

text \<open>
  C7 as stated fails: on the freshly initialised 64-page region at 0x100000,
  \<open>alloc_aligned(4096, 8192)\<close> returns 0x13F000 (page 63), which is not a multiple of
  8192.
\<close>

theorem buddy_alloc_aligned_counterexample:
  "fst (buddy_alloc_aligned 4096 8192 region64) = 0x13F000
   \<and> (0x13F000 :: u32) \<noteq> 0 \<and> (0x13F000 :: u32) mod 8192 \<noteq> 0"
proof -
  have "fst (buddy_alloc_aligned 4096 8192 region64) = 0x13F000" by code_simp
  then show ?thesis by simp
qed

section \<open>Registry: switching components\<close>

lemma take2_ph: "take 2 ty = [a, b] \<longleftrightarrow> char_at ty 0 = a \<and> char_at ty 1 = b \<and> length ty \<ge> 2"
  by (cases ty; cases "tl ty") (auto simp: char_at_def)

lemma take1_ch: "take 1 ty = [a] \<longleftrightarrow> char_at ty 0 = a \<and> length ty \<ge> 1"
  by (cases ty) (auto simp: char_at_def)

lemma char_at_nonnul_0: "c \<noteq> CHR 0x00 \<Longrightarrow> char_at ty 0 = c \<longleftrightarrow> take 1 ty = [c]"
  by (cases ty) (auto simp: char_at_def)

lemma char_at_nonnul_01:
  "a \<noteq> CHR 0x00 \<Longrightarrow> b \<noteq> CHR 0x00 \<Longrightarrow>
   char_at ty 0 = a \<and> char_at ty 1 = b \<longleftrightarrow> take 2 ty = [a, b]"
  by (cases ty; cases "tl ty") (auto simp: char_at_def)

lemma register_results [simp]:
  "fst (register_physical_allocator (Some t) reg) = 0"
  "fst (register_scheduler (Some u) reg) = 0"
  "fst (register_ipc_transport (Some v) reg) = 0"
  by (simp_all add: register_physical_allocator_def register_scheduler_def
      register_ipc_transport_def)

text \<open>
  C8 (as amended). \<open>switch_component\<close> compares leading characters only: the first two
  of the role against "ph", else the first against 's', else against 'i'; and the
  first two of the name against "bi" or "bu" (allocators), or the first against 'r' or
  'p' (schedulers), 'm' or 's' (transports). It returns 0 exactly when both pointers are
  non-null and these leading characters match; in every other case it returns -1 and
  leaves the registry unchanged.
\<close>

theorem switch_component_leading_chars:
  "if (\<exists>ty nm. component_type = Some ty \<and> component_name = Some nm \<and>
               leading_chars_accepted ty nm)
   then fst (switch_component component_type component_name reg) = 0
   else switch_component component_type component_name reg = (-1, reg)"
proof (cases component_type)
  case None
  then show ?thesis by (simp add: switch_component_def)
next
  case (Some ty)
  note ty = this
  show ?thesis
  proof (cases component_name)
    case None
    with ty show ?thesis by (simp add: switch_component_def)
  next
    case (Some nm)
    have p: "char_at ty 0 = CHR ''p'' \<and> char_at ty 1 = CHR ''h'' \<longleftrightarrow> take 2 ty = ''ph''"
      by (rule char_at_nonnul_01) simp_all
    have bi: "char_at nm 0 = CHR ''b'' \<and> char_at nm 1 = CHR ''i'' \<longleftrightarrow> take 2 nm = ''bi''"
      by (rule char_at_nonnul_01) simp_all
    have bu: "char_at nm 0 = CHR ''b'' \<and> char_at nm 1 = CHR ''u'' \<longleftrightarrow> take 2 nm = ''bu''"
      by (rule char_at_nonnul_01) simp_all
    have s: "char_at ty 0 = CHR ''s'' \<longleftrightarrow> take 1 ty = ''s''"
      by (rule char_at_nonnul_0) simp
    have i: "char_at ty 0 = CHR ''i'' \<longleftrightarrow> take 1 ty = ''i''"
      by (rule char_at_nonnul_0) simp
    have r: "char_at nm 0 = CHR ''r'' \<longleftrightarrow> take 1 nm = ''r''"
      by (rule char_at_nonnul_0) simp
    have pp: "char_at nm 0 = CHR ''p'' \<longleftrightarrow> take 1 nm = ''p''"
      by (rule char_at_nonnul_0) simp
    have m: "char_at nm 0 = CHR ''m'' \<longleftrightarrow> take 1 nm = ''m''"
      by (rule char_at_nonnul_0) simp
    have ss: "char_at nm 0 = CHR ''s'' \<longleftrightarrow> take 1 nm = ''s''"
      by (rule char_at_nonnul_0) simp
    show ?thesis unfolding ty Some
      by (simp only: switch_component_def leading_chars_accepted_def p bi bu s i r pp m ss
          prod.case option.case)
         (simp)
  qed
qed


theorem switch_component_leading_chars_witness:
  "\<not> (\<exists>ty nm. Some ''network'' = Some ty \<and> Some ''bitmap'' = Some nm \<and>
               leading_chars_accepted ty nm)
   \<and> switch_component (Some ''network'') (Some ''bitmap'') (init_kernel_registry g_kernel_registry)
       = (-1, init_kernel_registry g_kernel_registry)"
proof -
  have n: "\<not> (\<exists>ty nm. Some ''network'' = Some ty \<and> Some ''bitmap'' = Some nm \<and>
               leading_chars_accepted ty nm)"
    by (simp add: leading_chars_accepted_def)
  from switch_component_leading_chars[of "Some ''network''" "Some ''bitmap''"
      "init_kernel_registry g_kernel_registry"] n
  show ?thesis by (simp only: if_False simp_thms)
qed

text \<open>
  C8 as stated fails: "random" is not a built-in scheduler name, yet
  \<open>switch_component("scheduler", "random")\<close> on a registry bound to the priority
  scheduler returns 0 and rebinds the slot to the round-robin scheduler.
\<close>

theorem switch_component_unknown_name_counterexample:
  "''random'' \<notin> set (builtin_variant_names ''scheduler'')
   \<and> scheduler registry_with_priority = Some priority_scheduler_ops
   \<and> switch_component (Some ''scheduler'') (Some ''random'') registry_with_priority
       = (0, registry_with_priority\<lparr>scheduler := Some round_robin_scheduler_ops\<rparr>)"
  by (simp add: builtin_variant_names_def registry_with_priority_def switch_component_def
      init_kernel_registry_def g_kernel_registry_def register_physical_allocator_def
      register_scheduler_def register_ipc_transport_def char_at_def)

section \<open>Bitmap allocator: scenario S2\<close>

lemma no_wrap_le:
  fixes start :: u32
  assumes "unat start + 65536 \<le> 4294967296" "k < 65536"
  shows "\<not> (start + of_nat k < start)"
proof -
  have "unat (of_nat k :: u32) = k" using assms(2) by (simp add: unat_of_nat)
  then have "unat (start + of_nat k) = unat start + k"
    using assms by (simp add: unat_word_ariths)
  then show ?thesis by (simp add: word_less_nat_alt)
qed

lemma init16:
  "bitmap_init start (start + 16 * PAGE_SIZE) mem = (0, bm16 start mem 1 15 0)"
  by (simp add: bitmap_init_def PAGE_SIZE_def PAGES_PER_WORD_def Let_def set_page_used_def
      upt_rec[of 0] bm16_def)

lemmas bm_defs = bitmap_alloc_page_def find_free_page_def is_page_free_def set_page_used_def
  set_page_free_def PAGE_SIZE_def PAGES_PER_WORD_def Let_def bm16_def upt_conv_Cons
  bitmap_free_page_def bitmap_alloc_pages_def run_is_free_def mark_run_used_def
  scan_from.simps

lemma alloc1: "bitmap_alloc_page (bm16 start mem 1 15 0) = (start + 0x1000, bm16 start mem 3 14 1)"
  by (simp add: bm_defs)

lemma alloc2: "bitmap_alloc_page (bm16 start mem 3 14 1) = (start + 0x2000, bm16 start mem 7 13 2)"
  by (simp add: bm_defs)

lemma alloc3: "bitmap_alloc_page (bm16 start mem 7 13 2) = (start + 0x3000, bm16 start mem 15 12 3)"
  by (simp add: bm_defs)

lemma alloc4: "bitmap_alloc_page (bm16 start mem 15 12 3) = (start + 0x4000, bm16 start mem 31 11 4)"
  by (simp add: bm_defs)

lemma free2:
  assumes "unat start + 65536 \<le> 4294967296"
  shows "bitmap_free_page (start + 0x2000) (bm16 start mem 31 11 4) = bm16 start mem 27 12 4"
  using no_wrap_le[OF assms, of "0x2000"]
  by (simp add: bm_defs)

lemma allocs2: "bitmap_alloc_pages 2 (bm16 start mem 27 12 4) = Some (start + 0x5000, bm16 start mem 123 10 4)"
  by (simp add: bm_defs)

lemma allocs1: "bitmap_alloc_pages 1 (bm16 start mem 123 10 4) = Some (start + 0x2000, bm16 start mem 127 9 4)"
  by (simp add: bm_defs)


lemma s2_before_request_eq:
  assumes "unat start + 65536 \<le> 4294967296"
  shows "s2_before_request start mem = (start + 0x2000, bm16 start mem 27 12 4)"
  by (simp add: s2_before_request_def init16 alloc1 alloc2 alloc3 alloc4 free2[OF assms])

text \<open>
  C9 (as amended). After init on a 16-page region at \<open>start\<close> (one that does not wrap
  round the top of the address space), four \<open>alloc_page\<close> calls and \<open>free_page\<close> of the
  second page allocated, \<open>alloc_pages(2)\<close> succeeds: pages 5 to 15 are still free, and
  the first-fit scan returns the address of page 5, which is not 0. A following
  \<open>alloc_pages(1)\<close> returns the address of the freed page (page 2).
\<close>

theorem bitmap_scenario_s2:
  assumes "unat start + 65536 \<le> 4294967296"
  shows "(case s2_before_request start mem of
            (freed, s) \<Rightarrow>
              freed = start + 2 * PAGE_SIZE \<and>
              (case bitmap_alloc_pages 2 s of
                 None \<Rightarrow> False
               | Some (r, s') \<Rightarrow>
                   r = start + 5 * PAGE_SIZE \<and> r \<noteq> 0 \<and>
                   map_option fst (bitmap_alloc_pages 1 s') = Some freed))"
proof -
  have "unat (start + 0x5000) = unat start + 0x5000"
    using assms by (simp add: unat_word_ariths)
  then have "start + 0x5000 \<noteq> 0" by auto
  then show ?thesis
    by (simp add: s2_before_request_eq[OF assms] allocs2 allocs1 PAGE_SIZE_def)
qed

theorem bitmap_scenario_s2_witness:
  "unat (0x100000 :: u32) + 65536 \<le> 4294967296
   \<and> (case s2_before_request 0x100000 zero_memory of
            (freed, s) \<Rightarrow>
              freed = 0x100000 + 2 * PAGE_SIZE \<and>
              (case bitmap_alloc_pages 2 s of
                 None \<Rightarrow> False
               | Some (r, s') \<Rightarrow>
                   r = 0x100000 + 5 * PAGE_SIZE \<and> r \<noteq> 0 \<and>
                   map_option fst (bitmap_alloc_pages 1 s') = Some freed))"
proof -
  have h: "unat (0x100000 :: u32) + 65536 \<le> 4294967296" by simp
  from bitmap_scenario_s2[OF h, of zero_memory] h show ?thesis by simp
qed

text \<open>
  C9 as stated fails: in the scenario on the region at 0x100000, \<open>alloc_pages(2)\<close> does
  not return 0 but 0x105000, the address of page 5.
\<close>

theorem bitmap_scenario_s2_counterexample:
  "map_option fst (bitmap_alloc_pages 2 (snd (s2_before_request 0x100000 zero_memory)))
     = Some 0x105000
   \<and> (0x105000 :: u32) \<noteq> 0"
proof -
  have "unat (0x100000 :: u32) + 65536 \<le> 4294967296" by simp
  from s2_before_request_eq[OF this, of zero_memory] allocs2[of "0x100000" zero_memory]
  show ?thesis by simp
qed

end
